theory Spec2Isabelle
  imports Complex_Main "HOL-Library.AList" "HOL-Library.Char_ord" "HOL-Library.List_Lexorder"
begin

section \<open>Values, dictionaries and errors\<close>

text \<open>
  The script \<^verbatim>\<open>parse-logger.py\<close> keeps every reading in a Python dict whose keys are
  field names (strings) and whose values are strings taken from the file, or \<^verbatim>\<open>None\<close>.
  A dict is a partial map; a key that is missing is different from a key that holds
  \<^verbatim>\<open>None\<close>. The per-file table and the merged table are \<^verbatim>\<open>OrderedDict\<close>s from the
  formatted adjusted time to a reading: association lists, in insertion order.
  Exceptions are values of type \<open>error\<close>, so every raise of the script is a branch
  of the model.
\<close>

datatype pyval = PyNone | PyStr string

datatype error = KeyError string | ZeroDivisionError | ValueError | IndexError | OverflowError
  | OSError

type_synonym pydict = "string \<rightharpoonup> pyval"

type_synonym timeline = "(string \<times> pydict) list"

definition ebind :: "error + 'a \<Rightarrow> ('a \<Rightarrow> error + 'b) \<Rightarrow> error + 'b" where
  "ebind m f = (case m of Inl e \<Rightarrow> Inl e | Inr v \<Rightarrow> f v)"

text \<open>\<^verbatim>\<open>d[k]\<close> raises KeyError on a missing key.\<close>

definition getitem :: "pydict \<Rightarrow> string \<Rightarrow> error + pyval" where
  "getitem d k = (case d k of None \<Rightarrow> Inl (KeyError k) | Some v \<Rightarrow> Inr v)"

text \<open>\<^verbatim>\<open>k in values.keys() and values[k] != None\<close>\<close>

definition is_set :: "pydict \<Rightarrow> string \<Rightarrow> bool" where
  "is_set values k = (case values k of None \<Rightarrow> False | Some v \<Rightarrow> v \<noteq> PyNone)"

section \<open>Time codec\<close>

text \<open>
  \<^verbatim>\<open>parse_time\<close> (lines 36 to 40) and \<^verbatim>\<open>time_to_string\<close> (lines 54 and 55) are
  one line each around calls of the standard library, so what they compute is what
  \<^verbatim>\<open>datetime.strptime\<close>, \<^verbatim>\<open>time.mktime\<close>, \<^verbatim>\<open>datetime.fromtimestamp\<close> and
  \<^verbatim>\<open>strftime\<close> compute. The library is modelled as CPython 3.11 on 64-bit Linux
  behaves. A character is a byte; the white space of \<^verbatim>\<open>str.strip\<close>, of \<^verbatim>\<open>\s\<close> and
  of \<^verbatim>\<open>int\<close> is the white space of Python below code point 256.
\<close>

subsection \<open>Numbers\<close>

text \<open>
  A Python float is an IEEE 754 binary64 number: a rational with a significand of 53
  bits (less below \<open>2 ^ - 1022\<close>), an infinity or a NaN. The sign of a zero is not
  kept: nothing in the script can tell it. A timestamp of the script is an int or a
  float.
\<close>

datatype pyfloat = Finite rat | Infinity bool | NaN

datatype pynum = PInt int | PFloat pyfloat

definition round_half_even :: "rat \<Rightarrow> int" where
  "round_half_even x =
     (let f = \<lfloor>x\<rfloor>; d = x - of_int f
      in if d < 1 / 2 then f else if 1 / 2 < d then f + 1 else if even f then f else f + 1)"

text \<open>
  The number of binary digits of a positive integer, and the exponent of a positive
  rational: \<open>exponent2 x\<close> is the integer \<open>e\<close> with \<open>2 ^ e \<le> x < 2 ^ (e + 1)\<close>.
\<close>

function bit_length :: "int \<Rightarrow> nat" where
  "bit_length n = (if n \<le> 0 then 0 else Suc (bit_length (n div 2)))"
  by pat_completeness auto
termination
  by (relation "measure nat") auto

declare bit_length.simps [simp del]

definition exponent2 :: "rat \<Rightarrow> int" where
  "exponent2 x =
     (if 1 \<le> x then int (bit_length \<lfloor>x\<rfloor>) - 1
      else - int (bit_length (\<lceil>1 / x\<rceil> - 1)))"

definition pow2 :: "int \<Rightarrow> rat" where
  "pow2 e = (if 0 \<le> e then 2 ^ nat e else 1 / 2 ^ nat (- e))"

text \<open>
  The nearest binary64 number, ties to the even significand, before the check for
  overflow: the spacing of the numbers around \<open>x\<close> is \<open>2 ^ (e - 52)\<close>, with \<open>e\<close> the
  exponent of \<open>x\<close>, and \<open>2 ^ - 1074\<close> for the subnormal numbers.
\<close>

definition round_double :: "rat \<Rightarrow> rat" where
  "round_double x =
     (if x = 0 then 0
      else (let e = max (exponent2 \<bar>x\<bar>) (- 1022); u = pow2 (e - 52)
            in of_int (round_half_even (x / u)) * u))"

text \<open>The result of an arithmetic operation whose exact value is \<open>x\<close>; \<open>Infinity True\<close> is
  the negative infinity.\<close>

definition to_double :: "rat \<Rightarrow> pyfloat" where
  "to_double x = (let r = round_double x in if 2 ^ 1024 \<le> \<bar>r\<bar> then Infinity (r < 0) else Finite r)"

fun fmul :: "pyfloat \<Rightarrow> pyfloat \<Rightarrow> pyfloat" where
  "fmul (Finite a) (Finite b) = to_double (a * b)"
| "fmul (Finite a) (Infinity s) = (if a = 0 then NaN else Infinity (s \<noteq> (a < 0)))"
| "fmul (Infinity s) (Finite b) = (if b = 0 then NaN else Infinity (s \<noteq> (b < 0)))"
| "fmul (Infinity s) (Infinity t) = Infinity (s \<noteq> t)"
| "fmul NaN y = NaN"
| "fmul x NaN = NaN"

fun fadd :: "pyfloat \<Rightarrow> pyfloat \<Rightarrow> pyfloat" where
  "fadd (Finite a) (Finite b) = to_double (a + b)"
| "fadd (Finite a) (Infinity s) = Infinity s"
| "fadd (Infinity s) (Finite b) = Infinity s"
| "fadd (Infinity s) (Infinity t) = (if s = t then Infinity s else NaN)"
| "fadd NaN y = NaN"
| "fadd x NaN = NaN"

fun fneg :: "pyfloat \<Rightarrow> pyfloat" where
  "fneg (Finite a) = Finite (- a)"
| "fneg (Infinity s) = Infinity (\<not> s)"
| "fneg NaN = NaN"

definition fsub :: "pyfloat \<Rightarrow> pyfloat \<Rightarrow> pyfloat" where
  "fsub x y = fadd x (fneg y)"

text \<open>
  The conversion of an int to a float, as \<^verbatim>\<open>float(n)\<close> and every mixed operation make
  it: correctly rounded, OverflowError when the int is too large.
\<close>

definition float_of_int :: "int \<Rightarrow> error + rat" where
  "float_of_int n = (case to_double (of_int n) of Finite x \<Rightarrow> Inr x | _ \<Rightarrow> Inl OverflowError)"

text \<open>\<^verbatim>\<open>a / b\<close> on ints: the correctly rounded quotient.\<close>

definition truediv :: "int \<Rightarrow> int \<Rightarrow> error + rat" where
  "truediv a b =
     (if b = 0 then Inl ZeroDivisionError
      else (case to_double (of_int a / of_int b) of
              Finite q \<Rightarrow> Inr q
            | _ \<Rightarrow> Inl OverflowError))"

text \<open>\<^verbatim>\<open>int(x)\<close> on a finite float, and the integral part that \<^verbatim>\<open>modf\<close> gives: towards zero.\<close>

definition trunc :: "rat \<Rightarrow> int" where
  "trunc x = (if 0 \<le> x then \<lfloor>x\<rfloor> else \<lceil>x\<rceil>)"

subsection \<open>The pattern of \<^verbatim>\<open>strptime\<close>\<close>

text \<open>
  \<^verbatim>\<open>strptime\<close> with the format \<^verbatim>\<open>%d/%m/%Y %H:%M:%S\<close> matches the regular expression
  that \<^verbatim>\<open>_strptime\<close> builds from it: one group of ordered alternatives for each
  directive, \<^verbatim>\<open>\s+\<close> for the blank of the format, and the whole string must be
  consumed. Each \<open>re_\<close> function returns the ways its group can match, in the order
  in which backtracking tries them, so the head of \<open>strptime_matches\<close> is the match
  that \<^verbatim>\<open>re\<close> finds. The fields then pass the checks of the \<^verbatim>\<open>datetime\<close> constructor.
\<close>

record datetime =
  year :: int
  month :: int
  day :: int
  hour :: int
  minute :: int
  second :: int

definition isspace :: "char \<Rightarrow> bool" where
  "isspace c = (of_char c \<in> {9, 10, 11, 12, 13, 28, 29, 30, 31, 32, 133, 160 :: nat})"

definition isdigit :: "char \<Rightarrow> bool" where
  "isdigit c = (CHR ''0'' \<le> c \<and> c \<le> CHR ''9'')"

definition in_range :: "char \<Rightarrow> char \<Rightarrow> char \<Rightarrow> bool" where
  "in_range lo hi c = (lo \<le> c \<and> c \<le> hi)"

definition digit_val :: "char \<Rightarrow> int" where
  "digit_val c = int (of_char c) - 48"

text \<open>\<^verbatim>\<open>str.strip()\<close>\<close>

definition strip :: "string \<Rightarrow> string" where
  "strip s = rev (dropWhile isspace (rev (dropWhile isspace s)))"

definition two_chars :: "(char \<Rightarrow> bool) \<Rightarrow> (char \<Rightarrow> bool) \<Rightarrow> string \<Rightarrow> (int \<times> string) list" where
  "two_chars P Q s =
     (case s of a # b # r \<Rightarrow> if P a \<and> Q b then [(10 * digit_val a + digit_val b, r)] else []
      | _ \<Rightarrow> [])"

definition one_char :: "(char \<Rightarrow> bool) \<Rightarrow> string \<Rightarrow> (int \<times> string) list" where
  "one_char P s = (case s of a # r \<Rightarrow> if P a then [(digit_val a, r)] else [] | [] \<Rightarrow> [])"

definition lit :: "char \<Rightarrow> string \<Rightarrow> string list" where
  "lit c s = (case s of a # r \<Rightarrow> if a = c then [r] else [] | [] \<Rightarrow> [])"

text \<open>\<^verbatim>\<open>(?P<d>3[0-1]|[1-2]\d|0[1-9]|[1-9]| [1-9])\<close>\<close>

definition re_d :: "string \<Rightarrow> (int \<times> string) list" where
  "re_d s = two_chars (\<lambda>c. c = CHR ''3'') (in_range CHR ''0'' CHR ''1'') s
          @ two_chars (in_range CHR ''1'' CHR ''2'') isdigit s
          @ two_chars (\<lambda>c. c = CHR ''0'') (in_range CHR ''1'' CHR ''9'') s
          @ one_char (in_range CHR ''1'' CHR ''9'') s
          @ concat (map (one_char (in_range CHR ''1'' CHR ''9'')) (lit CHR '' '' s))"

text \<open>\<^verbatim>\<open>(?P<m>1[0-2]|0[1-9]|[1-9])\<close>\<close>

definition re_m :: "string \<Rightarrow> (int \<times> string) list" where
  "re_m s = two_chars (\<lambda>c. c = CHR ''1'') (in_range CHR ''0'' CHR ''2'') s
          @ two_chars (\<lambda>c. c = CHR ''0'') (in_range CHR ''1'' CHR ''9'') s
          @ one_char (in_range CHR ''1'' CHR ''9'') s"

text \<open>\<^verbatim>\<open>(?P<Y>\d\d\d\d)\<close>\<close>

definition re_Y :: "string \<Rightarrow> (int \<times> string) list" where
  "re_Y s =
     (case s of a # b # c # d # r \<Rightarrow>
        if isdigit a \<and> isdigit b \<and> isdigit c \<and> isdigit d
        then [(1000 * digit_val a + 100 * digit_val b + 10 * digit_val c + digit_val d, r)]
        else []
      | _ \<Rightarrow> [])"

text \<open>\<^verbatim>\<open>(?P<H>2[0-3]|[0-1]\d|\d)\<close>\<close>

definition re_H :: "string \<Rightarrow> (int \<times> string) list" where
  "re_H s = two_chars (\<lambda>c. c = CHR ''2'') (in_range CHR ''0'' CHR ''3'') s
          @ two_chars (in_range CHR ''0'' CHR ''1'') isdigit s
          @ one_char isdigit s"

text \<open>\<^verbatim>\<open>(?P<M>[0-5]\d|\d)\<close>\<close>

definition re_M :: "string \<Rightarrow> (int \<times> string) list" where
  "re_M s = two_chars (in_range CHR ''0'' CHR ''5'') isdigit s @ one_char isdigit s"

text \<open>\<^verbatim>\<open>(?P<S>6[0-1]|[0-5]\d|\d)\<close>\<close>

definition re_S :: "string \<Rightarrow> (int \<times> string) list" where
  "re_S s = two_chars (\<lambda>c. c = CHR ''6'') (in_range CHR ''0'' CHR ''1'') s
          @ two_chars (in_range CHR ''0'' CHR ''5'') isdigit s
          @ one_char isdigit s"

text \<open>\<^verbatim>\<open>\s+\<close>, greedy: the longest run of white space first.\<close>

fun re_spaces :: "string \<Rightarrow> string list" where
  "re_spaces [] = []"
| "re_spaces (a # r) = (if isspace a then re_spaces r @ [r] else [])"

definition strptime_matches :: "string \<Rightarrow> (datetime \<times> string) list" where
  "strptime_matches s =
     [(\<lparr>year = y, month = m, day = d, hour = H, minute = M, second = S\<rparr>, rest).
        (d, s1) \<leftarrow> re_d s, s2 \<leftarrow> lit CHR ''/'' s1,
        (m, s3) \<leftarrow> re_m s2, s4 \<leftarrow> lit CHR ''/'' s3,
        (y, s5) \<leftarrow> re_Y s4, s6 \<leftarrow> re_spaces s5,
        (H, s7) \<leftarrow> re_H s6, s8 \<leftarrow> lit CHR '':'' s7,
        (M, s9) \<leftarrow> re_M s8, s10 \<leftarrow> lit CHR '':'' s9,
        (S, rest) \<leftarrow> re_S s10]"

definition is_leap :: "int \<Rightarrow> bool" where
  "is_leap y = (y mod 4 = 0 \<and> (y mod 100 \<noteq> 0 \<or> y mod 400 = 0))"

definition days_in_month :: "int \<Rightarrow> int \<Rightarrow> int" where
  "days_in_month y m =
     (if m = 2 then (if is_leap y then 29 else 28)
      else if m = 4 \<or> m = 6 \<or> m = 9 \<or> m = 11 then 30 else 31)"

text \<open>The checks of the \<^verbatim>\<open>datetime\<close> constructor; a second of 60 or 61 is refused.\<close>

definition valid_datetime :: "datetime \<Rightarrow> bool" where
  "valid_datetime dt =
     (1 \<le> year dt \<and> year dt \<le> 9999 \<and> 1 \<le> month dt \<and> month dt \<le> 12 \<and>
      1 \<le> day dt \<and> day dt \<le> days_in_month (year dt) (month dt) \<and>
      0 \<le> hour dt \<and> hour dt \<le> 23 \<and> 0 \<le> minute dt \<and> minute dt \<le> 59 \<and>
      0 \<le> second dt \<and> second dt \<le> 59)"

text \<open>\<open>None\<close> stands for the ValueError of \<^verbatim>\<open>strptime\<close>: no match, text left after the
  match, or fields that are no date.\<close>

definition strptime :: "string \<Rightarrow> datetime option" where
  "strptime s =
     (case strptime_matches s of
        [] \<Rightarrow> None
      | (dt, rest) # _ \<Rightarrow> if rest \<noteq> [] then None else if valid_datetime dt then Some dt else None)"

subsection \<open>The calendar and the local zone\<close>

text \<open>
  Days are counted in the proleptic Gregorian calendar as \<^verbatim>\<open>datetime\<close> counts them
  (\<^verbatim>\<open>_ymd2ord\<close>, \<^verbatim>\<open>_ord2ymd\<close>): day 1 is the first of January of year 1, day 719163
  the first of January 1970.
\<close>

definition days_before_year :: "int \<Rightarrow> int" where
  "days_before_year y = (let p = y - 1 in p * 365 + p div 4 - p div 100 + p div 400)"

definition days_before_month :: "int \<Rightarrow> int \<Rightarrow> int" where
  "days_before_month y m =
     [0, 31, 59, 90, 120, 151, 181, 212, 243, 273, 304, 334] ! nat (m - 1)
       + (if 2 < m \<and> is_leap y then 1 else 0)"

definition ymd2ord :: "int \<Rightarrow> int \<Rightarrow> int \<Rightarrow> int" where
  "ymd2ord y m d = days_before_year y + days_before_month y m + d"

definition month_day :: "bool \<Rightarrow> int \<Rightarrow> int \<times> int" where
  "month_day leapyear n =
     (let m = (n + 50) div 32;
          preceding = [0, 31, 59, 90, 120, 151, 181, 212, 243, 273, 304, 334] ! nat (m - 1)
                              + (if 2 < m \<and> leapyear then 1 else 0)
      in if n < preceding
         then (m - 1,
               n - (preceding
                    - ([31, 28, 31, 30, 31, 30, 31, 31, 30, 31, 30, 31] ! nat (m - 2)
                       + (if m - 1 = 2 \<and> leapyear then 1 else 0))) + 1)
         else (m, n - preceding + 1))"

definition ord2ymd :: "int \<Rightarrow> int \<times> int \<times> int" where
  "ord2ymd ordinal =
     (let n = ordinal - 1;
          n400 = n div 146097; n = n mod 146097;
          n100 = n div 36524; n = n mod 36524;
          n4 = n div 1461; n = n mod 1461;
          n1 = n div 365; n = n mod 365;
          y = n400 * 400 + 1 + n100 * 100 + n4 * 4 + n1
      in if n1 = 4 \<or> n100 = 4 then (y - 1, 12, 31)
         else (case month_day (n1 = 3 \<and> (n4 \<noteq> 24 \<or> n100 = 3)) n of (m, d) \<Rightarrow> (y, m, d)))"

text \<open>
  The local zone belongs to the platform, not to the script: it is a parameter of the
  model, given by the two conversions of the C library. \<open>mktime z tm\<close> is the result of
  \<^verbatim>\<open>mktime\<close> on the fields \<open>tm\<close> with \<^verbatim>\<open>tm_isdst = -1\<close>, \<open>localtime z t\<close> the fields that
  \<^verbatim>\<open>localtime_r\<close> gives for the time \<open>t\<close>; \<open>None\<close> when the call fails. In a zone whose
  clock changes the two are not inverse: \<^verbatim>\<open>mktime\<close> maps a local time that the clock
  skips to a time that \<^verbatim>\<open>localtime_r\<close> shows an hour later.
\<close>

record zone =
  mktime :: "datetime \<Rightarrow> int option"
  localtime :: "int \<Rightarrow> datetime option"

text \<open>
  A zone that keeps one offset, \<open>off\<close> seconds east of UTC (UTC itself is the offset 0).
  \<^verbatim>\<open>localtime_r\<close> fails when the year minus 1900 does not fit the 32-bit \<^verbatim>\<open>tm_year\<close>.
\<close>

definition fixed_mktime :: "int \<Rightarrow> datetime \<Rightarrow> int option" where
  "fixed_mktime off tm =
     Some ((ymd2ord (year tm) (month tm) (day tm) - 719163) * 86400
            + hour tm * 3600 + minute tm * 60 + second tm - off)"

definition fixed_localtime :: "int \<Rightarrow> int \<Rightarrow> datetime option" where
  "fixed_localtime off t =
     (let l = t + off; sod = l mod 86400 in
      case ord2ymd (l div 86400 + 719163) of (y, m, d) \<Rightarrow>
        if - 2147483648 \<le> y - 1900 \<and> y - 1900 \<le> 2147483647
        then Some \<lparr>year = y, month = m, day = d, hour = sod div 3600,
                   minute = sod mod 3600 div 60, second = sod mod 60\<rparr>
        else None)"

definition fixed_zone :: "int \<Rightarrow> zone" where
  "fixed_zone off = \<lparr>mktime = fixed_mktime off, localtime = fixed_localtime off\<rparr>"

definition utc :: zone where
  "utc = fixed_zone 0"

subsection \<open>\<^verbatim>\<open>parse_time\<close> and \<^verbatim>\<open>time_to_string\<close>\<close>

text \<open>
  Lines 36 to 40. Every exception is caught and gives 0: the ValueError of
  \<^verbatim>\<open>strptime\<close> and the OverflowError of \<^verbatim>\<open>time.mktime\<close>. \<^verbatim>\<open>time.mktime\<close> returns the
  time as a float, which \<^verbatim>\<open>int\<close> truncates.
\<close>

definition parse_time :: "zone \<Rightarrow> string \<Rightarrow> int" where
  "parse_time z timestring =
     (case strptime timestring of
        None \<Rightarrow> 0
      | Some tm \<Rightarrow>
          (case mktime z tm of
             None \<Rightarrow> 0
           | Some tt \<Rightarrow> (case float_of_int tt of Inl e \<Rightarrow> 0 | Inr x \<Rightarrow> trunc x)))"

text \<open>
  The seconds and microseconds of a timestamp, as \<^verbatim>\<open>fromtimestamp\<close> takes them: an int
  as it is; a float split by \<^verbatim>\<open>modf\<close>, its fraction multiplied by \<open>10 ^ 6\<close> in float
  arithmetic and rounded half to even, with the carry into the seconds. The seconds must
  fit the 64-bit \<^verbatim>\<open>time_t\<close>.
\<close>

definition in_time_t :: "int \<Rightarrow> bool" where
  "in_time_t t = (- (2 ^ 63) \<le> t \<and> t < 2 ^ 63)"

definition to_timeval :: "pynum \<Rightarrow> error + int \<times> int" where
  "to_timeval t =
     (case t of
        PInt i \<Rightarrow> if in_time_t i then Inr (i, 0) else Inl OverflowError
      | PFloat NaN \<Rightarrow> Inl ValueError
      | PFloat (Infinity s) \<Rightarrow> Inl OverflowError
      | PFloat (Finite d) \<Rightarrow>
          (let intpart = trunc d;
               floatpart = round_half_even (round_double ((d - of_int intpart) * 1000000));
               tv = (if 1000000 \<le> floatpart then (intpart + 1, floatpart - 1000000)
                     else if floatpart < 0 then (intpart - 1, floatpart + 1000000)
                     else (intpart, floatpart))
           in if in_time_t (fst tv) then Inr tv else Inl OverflowError))"

definition digit_char :: "nat \<Rightarrow> char" where
  "digit_char n = ''0123456789'' ! n"

fun dec :: "nat \<Rightarrow> string" where
  "dec n = (if n < 10 then [digit_char n] else dec (n div 10) @ [digit_char (n mod 10)])"

declare dec.simps [simp del]

definition pad2 :: "int \<Rightarrow> string" where
  "pad2 n = [digit_char (nat n div 10), digit_char (nat n mod 10)]"

text \<open>\<^verbatim>\<open>strftime('%Y-%m-%d %H:%M:%S')\<close>: the C library writes \<^verbatim>\<open>%Y\<close> without padding.\<close>

definition strftime :: "datetime \<Rightarrow> string" where
  "strftime dt = dec (nat (year dt)) @ ''-'' @ pad2 (month dt) @ ''-'' @ pad2 (day dt) @ '' ''
     @ pad2 (hour dt) @ '':'' @ pad2 (minute dt) @ '':'' @ pad2 (second dt)"

text \<open>
  The seconds from day 0 to the fields of a local time (\<^verbatim>\<open>utc_to_seconds\<close> of
  \<^verbatim>\<open>_datetimemodule.c\<close>), which refuses a year outside 1 to 9999, and the local time of
  a time in these seconds (\<^verbatim>\<open>local\<close>).
\<close>

definition utc_to_seconds :: "datetime \<Rightarrow> error + int" where
  "utc_to_seconds tm =
     (if year tm < 1 \<or> 9999 < year tm then Inl ValueError
      else Inr (((ymd2ord (year tm) (month tm) (day tm) * 24 + hour tm) * 60 + minute tm) * 60
                  + second tm))"

definition local :: "zone \<Rightarrow> int \<Rightarrow> error + int" where
  "local z t =
     (if \<not> in_time_t t then Inl OverflowError
      else (case localtime z t of None \<Rightarrow> Inl OSError | Some tm \<Rightarrow> utc_to_seconds tm))"

text \<open>
  \<^verbatim>\<open>datetime.fromtimestamp\<close> without a \<^verbatim>\<open>tz\<close> argument. The failure of \<^verbatim>\<open>localtime_r\<close>
  is an OSError. To find out whether the local time is the second of two equal ones,
  the time one day earlier is converted too, and a time before a clock change if there
  was one in that day: each conversion can fail like the first. The microseconds do not
  reach the output of \<^verbatim>\<open>time_to_string\<close> and are not kept.
\<close>

definition fromtimestamp :: "zone \<Rightarrow> pynum \<Rightarrow> error + datetime" where
  "fromtimestamp z timestamp =
     ebind (to_timeval timestamp) (\<lambda>tv.
       (case localtime z (fst tv) of
          None \<Rightarrow> Inl OSError
        | Some tm \<Rightarrow>
            (let dt = tm\<lparr>second := min 59 (second tm)\<rparr> in
             ebind (utc_to_seconds dt) (\<lambda>result_seconds.
             ebind (local z (fst tv - 86400)) (\<lambda>probe_seconds.
               (let transition = result_seconds - probe_seconds - 86400 in
                ebind (if transition < 0 then local z (fst tv + transition) else Inr 0) (\<lambda>probe2.
                  if valid_datetime dt then Inr dt else Inl ValueError)))))))"

text \<open>Lines 54 and 55.\<close>

definition time_to_string :: "zone \<Rightarrow> pynum \<Rightarrow> error + string" where
  "time_to_string z timestamp = ebind (fromtimestamp z timestamp) (\<lambda>dt. Inr (strftime dt))"

text \<open>Line 29.\<close>

definition timezone_offset :: int where
  "timezone_offset = 4"

subsection \<open>Lines and patterns\<close>

text \<open>\<^verbatim>\<open>s.split(c)\<close> for a separator of one character.\<close>

fun split_on :: "char \<Rightarrow> string \<Rightarrow> string list" where
  "split_on c [] = [[]]"
| "split_on c (x # xs) =
     (if x = c then [] # split_on c xs
      else (case split_on c xs of r # rs \<Rightarrow> (x # r) # rs | [] \<Rightarrow> [[x]]))"

text \<open>\<^verbatim>\<open>xs[i]\<close> for \<open>0 \<le> i\<close>: IndexError beyond the end.\<close>

definition index :: "'a list \<Rightarrow> nat \<Rightarrow> error + 'a" where
  "index xs i = (if i < length xs then Inr (xs ! i) else Inl IndexError)"

text \<open>
  The four patterns of the header, each anchored at the start of the line by \<^verbatim>\<open>re.match\<close>.
  \<^verbatim>\<open>.\<close> matches no line feed and \<^verbatim>\<open>$\<close> matches at the end or before a last line feed
  (\<open>to_line_end\<close>); a lazy group followed by \<^verbatim>\<open>\.\<close> stops at the first full stop
  (\<open>up_to_dot\<close>). Each function returns group 1 of its pattern: the text up to the
  first tab for the line of the column names.
\<close>

definition match_prefix :: "string \<Rightarrow> string \<Rightarrow> string option" where
  "match_prefix p s = (if take (length p) s = p then Some (drop (length p) s) else None)"

definition to_line_end :: "string \<Rightarrow> string option" where
  "to_line_end s =
     (let body = (if s \<noteq> [] \<and> last s = CHR 0x0A then butlast s else s)
      in if CHR 0x0A \<in> set body then None else Some body)"

definition up_to_dot :: "string \<Rightarrow> string option" where
  "up_to_dot s =
     (let g = takeWhile (\<lambda>c. c \<noteq> CHR ''.'') s
      in if length g < length s \<and> CHR 0x0A \<notin> set g then Some g else None)"

definition match_header :: "string \<Rightarrow> string option" where
  "match_header line =
     (case match_prefix (''DD/MM/YYYY HH:MM:SS'' @ [CHR 0x09]) line of
        None \<Rightarrow> None
      | Some rest \<Rightarrow>
          (case to_line_end rest of
             None \<Rightarrow> None
           | Some body \<Rightarrow> Some (takeWhile (\<lambda>c. c \<noteq> CHR 0x09) body)))"

definition match_programmed :: "string \<Rightarrow> string option" where
  "match_programmed line =
     (case match_prefix ''Programmed: '' line of None \<Rightarrow> None | Some rest \<Rightarrow> up_to_dot rest)"

definition match_end :: "string \<Rightarrow> string option" where
  "match_end line =
     (case match_prefix ''End of logging (DD/MM/YYYY HH:MM:SS): '' line of
        None \<Rightarrow> None
      | Some rest \<Rightarrow> to_line_end rest)"

definition match_drift :: "string \<Rightarrow> string option" where
  "match_drift line =
     (case match_prefix ''Drift (secs): '' line of None \<Rightarrow> None | Some rest \<Rightarrow> up_to_dot rest)"

text \<open>
  \<^verbatim>\<open>int(s)\<close> on a string: white space around, one sign, decimal digits with single
  underscores between them; more than 4300 digits are refused (the default limit of the
  interpreter). \<open>None\<close> stands for the ValueError.
\<close>

definition int_space :: "char \<Rightarrow> bool" where
  "int_space c = (of_char c \<in> {9, 10, 11, 12, 13, 32, 133, 160 :: nat})"

fun digits_value :: "int \<Rightarrow> string \<Rightarrow> int option" where
  "digits_value acc [] = Some acc"
| "digits_value acc [c] = (if isdigit c then Some (10 * acc + digit_val c) else None)"
| "digits_value acc (c # d # r) =
     (if isdigit c then
        (if d = CHR ''_'' then
           (case r of [] \<Rightarrow> None
            | e # _ \<Rightarrow> if isdigit e then digits_value (10 * acc + digit_val c) r else None)
         else digits_value (10 * acc + digit_val c) (d # r))
      else None)"

definition py_int :: "string \<Rightarrow> int option" where
  "py_int s =
     (let t = rev (dropWhile int_space (rev (dropWhile int_space s)))
      in case t of
           [] \<Rightarrow> None
         | c # r \<Rightarrow>
             if 4300 < length (filter isdigit t) then None
             else if c = CHR ''-'' then (if r = [] then None else map_option uminus (digits_value 0 r))
             else if c = CHR ''+'' then (if r = [] then None else digits_value 0 r)
             else digits_value 0 t)"

section \<open>Reading one file (lines 60 to 228)\<close>

text \<open>
  The local variables of \<^verbatim>\<open>read_data_file\<close>. \<open>endt\<close> is the variable \<^verbatim>\<open>end\<close>.
  \<open>dps\<close> starts as the integer 0 and becomes a float at the drift line; \<open>field\<close> is
  \<^verbatim>\<open>None\<close> until the line of the column names, which also sets \<open>in_data\<close>.
\<close>

record pstate =
  data :: timeline
  start :: int
  endt :: int
  drift :: int
  dps :: pynum
  field :: "string option"
  in_data :: bool

text \<open>The mapping \<^verbatim>\<open>fields\<close> of lines 71 to 78.\<close>

definition fields :: "(string \<times> string) list" where
  "fields =
     [(''T('C)'', ''temp''),
      (''light(lux)'', ''light''),
      (''wets0-50'', ''wets''),
      (''wet min('C)'', ''wet_temp_min''),
      (''wet/dry'', ''wetdry''),
      (''duration'', ''duration'')]"

definition init_state :: pstate where
  "init_state = \<lparr>data = [], start = 0, endt = 0, drift = 0, dps = PInt 0, field = None,
     in_data = False\<rparr>"

text \<open>
  \<^verbatim>\<open>time + (dps * (time - start))\<close> (line 144). While \<open>dps\<close> is the int 0 this is
  integer arithmetic. Once \<open>dps\<close> is a float, \<^verbatim>\<open>time - start\<close> and \<^verbatim>\<open>time\<close> are converted
  to floats, and the product and the sum are each rounded to a float.
\<close>

definition adjusted_time :: "pynum \<Rightarrow> int \<Rightarrow> int \<Rightarrow> error + pynum" where
  "adjusted_time d time st =
     (case d of
        PInt i \<Rightarrow> Inr (PInt (time + i * (time - st)))
      | PFloat x \<Rightarrow>
          ebind (float_of_int (time - st)) (\<lambda>elapsed.
          ebind (float_of_int time) (\<lambda>t.
            Inr (PFloat (fadd (Finite t) (fmul x (Finite elapsed)))))))"

text \<open>\<^verbatim>\<open>adjtime - 3600 * timezone_offset\<close> (line 149).\<close>

definition minus_offset :: "pynum \<Rightarrow> pynum" where
  "minus_offset adjtime =
     (case adjtime of
        PInt i \<Rightarrow> PInt (i - 3600 * timezone_offset)
      | PFloat x \<Rightarrow> PFloat (fsub x (Finite (of_int (3600 * timezone_offset)))))"

text \<open>
  Lines 171 to 180. A row that is too short raises IndexError. \<open>field\<close> is never
  \<^verbatim>\<open>None\<close> here, since \<open>in_data\<close> is set together with it (lemma \<open>in_data_field\<close>);
  the model stores nothing in that case.
\<close>

definition store_fields :: "string option \<Rightarrow> string list \<Rightarrow> pydict \<Rightarrow> error + pydict" where
  "store_fields fld row r =
     (if fld = Some ''wetdry'' then
        ebind (index row 2) (\<lambda>a.
        ebind (index row 1) (\<lambda>b.
          Inr (r(''wetdry'' \<mapsto> PyStr a, ''duration'' \<mapsto> PyStr b))))
      else if fld = Some ''wet_temp_min'' then
        ebind (index row 1) (\<lambda>a.
        ebind (index row 2) (\<lambda>b.
        ebind (index row 3) (\<lambda>c.
        ebind (index row 4) (\<lambda>d.
          Inr (r(''wet_temp_min'' \<mapsto> PyStr a, ''wet_temp_max'' \<mapsto> PyStr b,
                 ''wet_temp_mean'' \<mapsto> PyStr c, ''wet_temp_samples'' \<mapsto> PyStr d))))))
      else
        ebind (index row 1) (\<lambda>a.
          (case fld of Some f \<Rightarrow> Inr (r(f \<mapsto> PyStr a)) | None \<Rightarrow> Inr r)))"

text \<open>Lines 121 to 180: one line of the data section.\<close>

definition data_line :: "zone \<Rightarrow> pstate \<Rightarrow> string \<Rightarrow> error + pstate" where
  "data_line z st line =
     (let row = split_on (CHR 0x09) line in
      ebind (index row 0) (\<lambda>row0.
        if row0 = [] then Inr st
        else
          (let time = parse_time z row0 in
           if time < 1 then Inr st
           else
             ebind (adjusted_time (dps st) time (start st)) (\<lambda>adjtime.
               (let loctime = minus_offset adjtime
                in ebind (time_to_string z adjtime) (\<lambda>atime.
                   ebind (time_to_string z (PInt time)) (\<lambda>t1.
                   ebind (time_to_string z loctime) (\<lambda>t2.
                     (let r0 = (case map_of (data st) atime of None \<Rightarrow> Map.empty | Some r \<Rightarrow> r)
                      in ebind (store_fields (field st) row
                                  (r0(''time'' \<mapsto> PyStr t1, ''localtime'' \<mapsto> PyStr t2))) (\<lambda>r.
                           Inr (st\<lparr>data := AList.update atime r (data st)\<rparr>)))))))))))"

text \<open>Lines 190 to 217: one line of the header, the four patterns in their order.\<close>

definition header_line :: "zone \<Rightarrow> pstate \<Rightarrow> string \<Rightarrow> error + pstate" where
  "header_line z st line =
     (case match_header line of
        Some label \<Rightarrow>
          (case map_of fields label of
             None \<Rightarrow> Inl (KeyError label)
           | Some f \<Rightarrow>
               Inr (st\<lparr>field := Some (if f = ''duration'' then ''wetdry'' else f),
                       in_data := True\<rparr>))
      | None \<Rightarrow>
     (case match_programmed line of
        Some g \<Rightarrow> Inr (st\<lparr>start := parse_time z g\<rparr>)
      | None \<Rightarrow>
     (case match_end line of
        Some g \<Rightarrow> Inr (st\<lparr>endt := parse_time z g\<rparr>)
      | None \<Rightarrow>
     (case match_drift line of
        Some g \<Rightarrow>
          (case py_int g of
             None \<Rightarrow> Inl ValueError
           | Some d \<Rightarrow>
               ebind (truediv d (endt st - start st)) (\<lambda>q.
                 Inr (st\<lparr>drift := d, dps := PFloat (Finite q)\<rparr>)))
      | None \<Rightarrow> Inr st))))"

definition process_line :: "zone \<Rightarrow> pstate \<Rightarrow> string \<Rightarrow> error + pstate" where
  "process_line z st raw =
     (let line = strip raw in
      if in_data st then data_line z st line else header_line z st line)"

fun read_lines :: "zone \<Rightarrow> pstate \<Rightarrow> string list \<Rightarrow> error + pstate" where
  "read_lines z st [] = Inr st"
| "read_lines z st (raw # rest) =
     ebind (process_line z st raw) (\<lambda>st'. read_lines z st' rest)"

text \<open>
  A file is the list of its lines, or \<open>None\<close> when it cannot be opened: the IOError is
  caught (line 222) and the empty table is returned. Every other exception leaves the
  function.
\<close>

definition read_data_file :: "zone \<Rightarrow> string list option \<Rightarrow> error + timeline" where
  "read_data_file z content =
     (case content of
        None \<Rightarrow> Inr []
      | Some lines \<Rightarrow> ebind (read_lines z init_state lines) (\<lambda>st. Inr (data st)))"

section \<open>Merging the files' tables (lines 304 to 321)\<close>

text \<open>The field list of the inner loop at line 317, in its order.\<close>

definition output_fields :: "string list" where
  "output_fields = [''time'', ''localtime'', ''temp'', ''wets'', ''light'', ''wetdry'',
     ''duration'', ''wet_temp_min'', ''wet_temp_max'', ''wet_temp_mean'', ''wet_temp_samples'']"

text \<open>
  One pass of the inner loop: a field the incoming reading has is copied; a field it
  lacks is set to \<^verbatim>\<open>None\<close> only when the output has no entry for it yet.
\<close>

definition merge_field :: "pydict \<Rightarrow> pydict \<Rightarrow> string \<Rightarrow> pydict" where
  "merge_field values out f =
     (case values f of
        Some v \<Rightarrow> out(f \<mapsto> v)
      | None \<Rightarrow> (case out f of None \<Rightarrow> out(f \<mapsto> PyNone) | Some _ \<Rightarrow> out))"

definition merge_reading :: "pydict \<Rightarrow> pydict \<Rightarrow> pydict" where
  "merge_reading values out = foldl (merge_field values) out output_fields"

text \<open>
  The body of the loop over \<^verbatim>\<open>data.items()\<close>: a date that is new gets an empty dict at
  the end of the OrderedDict, then the fields are merged into the dict of that date.
\<close>

definition merge_item :: "timeline \<Rightarrow> string \<times> pydict \<Rightarrow> timeline" where
  "merge_item output item =
     (case item of (date, values) \<Rightarrow>
        (let out = (case map_of output date of None \<Rightarrow> Map.empty | Some r \<Rightarrow> r)
         in AList.update date (merge_reading values out) output))"

definition merge_file :: "timeline \<Rightarrow> timeline \<Rightarrow> timeline" where
  "merge_file output dat = foldl merge_item output dat"

definition merge_all :: "timeline list \<Rightarrow> timeline" where
  "merge_all datas = foldl merge_file [] datas"

section \<open>Interpolation (lines 332 to 388)\<close>

text \<open>The first \<^verbatim>\<open>if\<close> of the loop body: the wet values of the reading go to the state.\<close>

definition capture_wet :: "pydict \<Rightarrow> pydict \<Rightarrow> error + pydict" where
  "capture_wet state values =
     (if is_set values ''wet_temp_min'' then
        ebind (getitem values ''wet_temp_min'') (\<lambda>a.
        ebind (getitem values ''wet_temp_max'') (\<lambda>b.
        ebind (getitem values ''wet_temp_mean'') (\<lambda>c.
        ebind (getitem values ''wet_temp_samples'') (\<lambda>d.
          Inr (state(''wet_temp_min'' \<mapsto> a, ''wet_temp_max'' \<mapsto> b,
                     ''wet_temp_mean'' \<mapsto> c, ''wet_temp_samples'' \<mapsto> d))))))
      else Inr state)"

text \<open>The second \<^verbatim>\<open>if\<close>: the state's wet values are written into the reading.\<close>

definition fill_wet :: "pydict \<Rightarrow> pydict \<Rightarrow> error + pydict" where
  "fill_wet state values =
     (if state ''wet_temp_min'' \<noteq> None then
        ebind (getitem state ''wet_temp_min'') (\<lambda>a.
        ebind (getitem state ''wet_temp_max'') (\<lambda>b.
        ebind (getitem state ''wet_temp_mean'') (\<lambda>c.
        ebind (getitem state ''wet_temp_samples'') (\<lambda>d.
          Inr (values(''wet_temp_min'' \<mapsto> a, ''wet_temp_max'' \<mapsto> b,
                      ''wet_temp_mean'' \<mapsto> c, ''wet_temp_samples'' \<mapsto> d))))))
      else Inr values)"

text \<open>The third \<^verbatim>\<open>if\<close> (lines 369 to 371): wetdry and duration go to the state.\<close>

definition capture_dry :: "pydict \<Rightarrow> pydict \<Rightarrow> error + pydict" where
  "capture_dry state values =
     (if is_set values ''wetdry'' then
        ebind (getitem values ''wetdry'') (\<lambda>a.
        ebind (getitem values ''duration'') (\<lambda>b.
          Inr (state(''wetdry'' \<mapsto> a, ''duration'' \<mapsto> b))))
      else Inr state)"

text \<open>The fourth \<^verbatim>\<open>if\<close> (lines 373 and 374): only wetdry is written into the reading.\<close>

definition fill_dry :: "pydict \<Rightarrow> pydict \<Rightarrow> error + pydict" where
  "fill_dry state values =
     (if state ''wetdry'' \<noteq> None then
        ebind (getitem state ''wetdry'') (\<lambda>a. Inr (values(''wetdry'' \<mapsto> a)))
      else Inr values)"

definition interp_item :: "pydict \<Rightarrow> pydict \<Rightarrow> error + (pydict \<times> pydict)" where
  "interp_item state values =
     ebind (capture_wet state values) (\<lambda>s1.
     ebind (fill_wet s1 values) (\<lambda>v1.
     ebind (capture_dry s1 v1) (\<lambda>s2.
     ebind (fill_dry s2 v1) (\<lambda>v2. Inr (s2, v2)))))"

text \<open>
  The loop over \<^verbatim>\<open>temp.items()\<close>. The dict of a date is changed in place and stored
  back under its own key, so the order of \<^verbatim>\<open>temp\<close> stays.
\<close>

fun interp_loop :: "pydict \<Rightarrow> timeline \<Rightarrow> error + timeline" where
  "interp_loop state [] = Inr []"
| "interp_loop state ((time, values) # rest) =
     ebind (interp_item state values) (\<lambda>(state', values').
     ebind (interp_loop state' rest) (\<lambda>rest'. Inr ((time, values') # rest')))"

text \<open>
  \<^verbatim>\<open>for key in keys: temp[key] = output[key]\<close>: a new OrderedDict filled in the order
  of \<open>keys\<close>.
\<close>

fun rebuild :: "timeline \<Rightarrow> string list \<Rightarrow> timeline \<Rightarrow> error + timeline" where
  "rebuild src [] acc = Inr acc"
| "rebuild src (k # ks) acc =
     (case map_of src k of
        None \<Rightarrow> Inl (KeyError k)
      | Some v \<Rightarrow> rebuild src ks (AList.update k v acc))"

text \<open>\<^verbatim>\<open>sorted(d.keys(), reverse=True)\<close> and \<^verbatim>\<open>sorted(d.keys(), reverse=False)\<close>;
  strings compare by code point, lexicographically.\<close>

definition sorted_keys_desc :: "timeline \<Rightarrow> string list" where
  "sorted_keys_desc d = rev (sort (map fst d))"

definition sorted_keys_asc :: "timeline \<Rightarrow> string list" where
  "sorted_keys_asc d = sort (map fst d)"

text \<open>Lines 332 to 379: the table in descending order of its keys, interpolated.\<close>

definition interpolate_desc :: "timeline \<Rightarrow> error + timeline" where
  "interpolate_desc output =
     ebind (rebuild output (sorted_keys_desc output) []) (\<lambda>temp.
       interp_loop Map.empty temp)"

text \<open>Lines 332 to 388: interpolation, then the table in ascending order of its keys.\<close>

definition interpolate :: "timeline \<Rightarrow> error + timeline" where
  "interpolate output =
     ebind (interpolate_desc output) (\<lambda>temp. rebuild temp (sorted_keys_asc temp) [])"

section \<open>The rows written (lines 405 and 406)\<close>

definition emit_row :: "string \<times> pydict \<Rightarrow> error + pyval list" where
  "emit_row item =
     (case item of (time, values) \<Rightarrow>
        ebind (getitem values ''localtime'') (\<lambda>c1.
        ebind (getitem values ''time'') (\<lambda>c2.
        ebind (getitem values ''temp'') (\<lambda>c3.
        ebind (getitem values ''light'') (\<lambda>c4.
        ebind (getitem values ''wets'') (\<lambda>c5.
        ebind (getitem values ''wetdry'') (\<lambda>c6.
        ebind (getitem values ''duration'') (\<lambda>c7.
        ebind (getitem values ''wet_temp_min'') (\<lambda>c8.
        ebind (getitem values ''wet_temp_max'') (\<lambda>c9.
        ebind (getitem values ''wet_temp_mean'') (\<lambda>c10.
        ebind (getitem values ''wet_temp_samples'') (\<lambda>c11.
          Inr [PyStr time, c1, c2, c3, c4, c5, c6, c7, c8, c9, c10, c11]))))))))))))"

fun emit_rows :: "timeline \<Rightarrow> error + pyval list list" where
  "emit_rows [] = Inr []"
| "emit_rows (item # rest) =
     ebind (emit_row item) (\<lambda>row.
     ebind (emit_rows rest) (\<lambda>rows. Inr (row # rows)))"

section \<open>The whole run (lines 279 to 406)\<close>

text \<open>\<^verbatim>\<open>sub in s\<close> for strings.\<close>

fun contains :: "string \<Rightarrow> string \<Rightarrow> bool" where
  "contains sub [] = (sub = [])"
| "contains sub (c # s) = (take (length sub) (c # s) = sub \<or> contains sub s)"

text \<open>
  The loop over the files (lines 279 to 321); a file is its path and its content. An
  exception of \<^verbatim>\<open>read_data_file\<close> ends the run.
\<close>

fun merge_files :: "zone \<Rightarrow> timeline \<Rightarrow> (string \<times> string list option) list \<Rightarrow> error + timeline" where
  "merge_files z outp [] = Inr outp"
| "merge_files z outp ((path, content) # rest) =
     (if contains ''driftadj'' path then merge_files z outp rest
      else ebind (read_data_file z content) (\<lambda>dat. merge_files z (merge_file outp dat) rest))"

definition run :: "zone \<Rightarrow> (string \<times> string list option) list \<Rightarrow> error + pyval list list" where
  "run z files =
     ebind (merge_files z [] files) (\<lambda>outp.
     ebind (interpolate outp) emit_rows)"

section \<open>Observations and auxiliary notions\<close>

text \<open>A reading is complete when each of the eleven output fields has an entry
  (possibly \<^verbatim>\<open>None\<close>).\<close>

definition complete :: "pydict \<Rightarrow> bool" where
  "complete r = list_all (\<lambda>f. r f \<noteq> None) output_fields"

definition all_complete :: "timeline \<Rightarrow> bool" where
  "all_complete tab = list_all (\<lambda>itm. complete (snd itm)) tab"

text \<open>The fields that the interpolation loop assigns to (lines 361 to 364 and 374).\<close>

definition interpolated_fields :: "string list" where
  "interpolated_fields = [''wetdry'', ''wet_temp_min'', ''wet_temp_max'', ''wet_temp_mean'', ''wet_temp_samples'']"

text \<open>The four wet values enter the state together.\<close>

definition wet_ok :: "pydict \<Rightarrow> bool" where
  "wet_ok state = (state ''wet_temp_min'' \<noteq> None \<longrightarrow>
     state ''wet_temp_max'' \<noteq> None \<and> state ''wet_temp_mean'' \<noteq> None \<and> state ''wet_temp_samples'' \<noteq> None)"

text \<open>
  The values of one carried field along the traversal: a value that is set replaces the
  state, and a set state replaces the value.
\<close>

fun carry :: "pyval option \<Rightarrow> pyval option list \<Rightarrow> pyval option list" where
  "carry st [] = []"
| "carry st (x # xs) =
     (let st' = (if x \<noteq> None \<and> x \<noteq> Some PyNone then x else st)
      in (case st' of None \<Rightarrow> x | Some a \<Rightarrow> Some a) # carry st' xs)"

text \<open>The entries of a table at a list of keys, in the order of the list.\<close>

definition pick :: "timeline \<Rightarrow> string list \<Rightarrow> timeline" where
  "pick src ks = map (\<lambda>k. (k, the (map_of src k))) ks"

definition same_but_interpolated :: "pydict \<Rightarrow> pydict \<Rightarrow> bool" where
  "same_but_interpolated r r' = (\<forall>f. f \<notin> set interpolated_fields \<longrightarrow> r' f = r f)"

text \<open>\<^verbatim>\<open>tab[k][f]\<close> as an observation: \<open>None\<close> when the date or the field is missing.\<close>

definition field_at :: "timeline \<Rightarrow> string \<Rightarrow> string \<Rightarrow> pyval option" where
  "field_at tab k f = (case map_of tab k of None \<Rightarrow> None | Some r \<Rightarrow> r f)"

text \<open>The same observation on the table after lines 332 to 388.\<close>

definition interpolated_field :: "timeline \<Rightarrow> string \<Rightarrow> string \<Rightarrow> error + pyval option" where
  "interpolated_field otab k f = ebind (interpolate otab) (\<lambda>final. Inr (field_at final k f))"

text \<open>
  Example tables, as \<^verbatim>\<open>read_data_file\<close> returns them: a temperature file with five
  hourly readings, a wet/dry file with two readings, a light file with one.
\<close>

definition ex_temp_data :: timeline where
  "ex_temp_data =
    [(''2022-01-01 00:00:00'', map_of [(''time'', PyStr ''2022-01-01 00:00:00''),
        (''localtime'', PyStr ''2021-12-31 20:00:00''), (''temp'', PyStr ''20.0'')]),
     (''2022-01-01 01:00:00'', map_of [(''time'', PyStr ''2022-01-01 01:00:00''),
        (''localtime'', PyStr ''2021-12-31 21:00:00''), (''temp'', PyStr ''20.1'')]),
     (''2022-01-01 02:00:00'', map_of [(''time'', PyStr ''2022-01-01 02:00:00''),
        (''localtime'', PyStr ''2021-12-31 22:00:00''), (''temp'', PyStr ''20.2'')]),
     (''2022-01-01 03:00:00'', map_of [(''time'', PyStr ''2022-01-01 03:00:00''),
        (''localtime'', PyStr ''2021-12-31 23:00:00''), (''temp'', PyStr ''20.3'')]),
     (''2022-01-01 04:00:00'', map_of [(''time'', PyStr ''2022-01-01 04:00:00''),
        (''localtime'', PyStr ''2022-01-01 00:00:00''), (''temp'', PyStr ''20.4'')])]"

definition ex_wetdry_data :: timeline where
  "ex_wetdry_data =
    [(''2022-01-01 01:00:00'', map_of [(''time'', PyStr ''2022-01-01 01:00:00''),
        (''localtime'', PyStr ''2021-12-31 21:00:00''), (''wetdry'', PyStr ''dry''),
        (''duration'', PyStr ''3600'')]),
     (''2022-01-01 04:00:00'', map_of [(''time'', PyStr ''2022-01-01 04:00:00''),
        (''localtime'', PyStr ''2022-01-01 00:00:00''), (''wetdry'', PyStr ''wet''),
        (''duration'', PyStr ''120'')])]"

definition ex_merged :: timeline where
  "ex_merged = merge_all [ex_temp_data, ex_wetdry_data]"

definition ex_light_data :: timeline where
  "ex_light_data =
    [(''2022-01-01 01:00:00'', map_of [(''time'', PyStr ''2022-01-01 01:00:00''),
        (''localtime'', PyStr ''2021-12-31 21:00:00''), (''light'', PyStr ''350'')])]"

text \<open>The adjusted time as the specification words it, for comparison.\<close>

definition adjusted_time_spec :: "rat \<Rightarrow> int \<Rightarrow> int \<Rightarrow> int" where
  "adjusted_time_spec x time s = time + round_half_even (round_double (x * of_int (time - s)))"

text \<open>Example lines of a logger file, and the states of the reader after them.\<close>

definition ex_programmed :: string where
  "ex_programmed = ''Programmed: 01/01/2022 00:00:00.'' @ [CHR 0x0A]"

definition ex_end :: string where
  "ex_end = ''End of logging (DD/MM/YYYY HH:MM:SS): 01/01/2022 00:00:04'' @ [CHR 0x0A]"

definition ex_end_same :: string where
  "ex_end_same = ''End of logging (DD/MM/YYYY HH:MM:SS): 01/01/2022 00:00:00'' @ [CHR 0x0A]"

definition ex_drift :: string where
  "ex_drift = ''Drift (secs): 3.'' @ [CHR 0x0A]"

definition ex_names :: string where
  "ex_names = ''DD/MM/YYYY HH:MM:SS'' @ [CHR 0x09] @ ''T('C)'' @ [CHR 0x0A]"

definition ex_names_unknown :: string where
  "ex_names_unknown = ''DD/MM/YYYY HH:MM:SS'' @ [CHR 0x09] @ ''humidity'' @ [CHR 0x0A]"

definition ex_row1 :: string where
  "ex_row1 = ''01/01/2022 00:00:01'' @ [CHR 0x09] @ ''20.0'' @ [CHR 0x0A]"


definition ex_row_bad :: string where
  "ex_row_bad = ''n/a'' @ [CHR 0x09] @ ''20.7'' @ [CHR 0x0A]"

definition ex_state_window :: pstate where
  "ex_state_window = \<lparr>data = [], start = 1640995200, endt = 1640995204, drift = 0,
     dps = PInt 0, field = None, in_data = False\<rparr>"

definition ex_state_same :: pstate where
  "ex_state_same = \<lparr>data = [], start = 1640995200, endt = 1640995200, drift = 0,
     dps = PInt 0, field = None, in_data = False\<rparr>"

definition ex_state_drift :: pstate where
  "ex_state_drift = \<lparr>data = [], start = 1640995200, endt = 1640995204, drift = 3,
     dps = PFloat (Finite (3 / 4)), field = None, in_data = False\<rparr>"

definition ex_state_data :: pstate where
  "ex_state_data = \<lparr>data = [], start = 1640995200, endt = 1640995204, drift = 3,
     dps = PFloat (Finite (3 / 4)), field = Some ''temp'', in_data = True\<rparr>"

definition ex_state_row1 :: pstate where
  "ex_state_row1 = \<lparr>data = [(''2022-01-01 00:00:01'',
       [''time'' \<mapsto> PyStr ''2022-01-01 00:00:01'', ''localtime'' \<mapsto> PyStr ''2021-12-31 20:00:01'',
        ''temp'' \<mapsto> PyStr ''20.0''])],
     start = 1640995200, endt = 1640995204, drift = 3,
     dps = PFloat (Finite (3 / 4)), field = Some ''temp'', in_data = True\<rparr>"

text \<open>
  A zone whose clock changes, with the rules of New York in 2022: five hours behind UTC,
  four hours from 13 March 07:00 UTC to 6 November 06:00 UTC. The local times from 02:00
  to 03:00 on 13 March do not exist; \<^verbatim>\<open>mktime\<close> of the C library reads them with the
  offset before the change. The local times from 01:00 to 02:00 on 6 November exist
  twice; the later one is taken here.
\<close>

definition ex_offset :: "int \<Rightarrow> int" where
  "ex_offset t = (if 1647154800 \<le> t \<and> t < 1667714400 then - 14400 else - 18000)"

definition ex_dst_zone :: zone where
  "ex_dst_zone =
     \<lparr>mktime = (\<lambda>tm. case fixed_mktime 0 tm of
                        None \<Rightarrow> None
                      | Some w \<Rightarrow>
                          Some (if w < 1647140400 then w + 18000
                                else if w < 1667696400 then w + 14400 else w + 18000)),
      localtime = (\<lambda>t. fixed_localtime (ex_offset t) t)\<rparr>"








section \<open>Properties of the merge\<close>

lemma ebind_Inr_iff: "ebind m f = Inr y \<longleftrightarrow> (\<exists>v. m = Inr v \<and> f v = Inr y)"
  by (cases m) (simp_all add: ebind_def)

lemma ebind_Inr [simp]: "ebind (Inr v) f = f v"
  by (simp add: ebind_def)

lemma ebind_Inl [simp]: "ebind (Inl e) f = Inl e"
  by (simp add: ebind_def)

lemma merge_field_apply:
  "merge_field values out f g =
     (if g = f
      then (case values f of Some v \<Rightarrow> Some v
            | None \<Rightarrow> (case out f of None \<Rightarrow> Some PyNone | Some w \<Rightarrow> Some w))
      else out g)"
  by (simp add: merge_field_def split: option.splits)

lemma foldl_merge_field:
  "foldl (merge_field values) out fs g =
     (if g \<in> set fs
      then (case values g of Some v \<Rightarrow> Some v
            | None \<Rightarrow> (case out g of None \<Rightarrow> Some PyNone | Some w \<Rightarrow> Some w))
      else out g)"
proof (induction fs arbitrary: out)
  case Nil
  then show ?case by simp
next
  case (Cons f fs)
  have "foldl (merge_field values) out (f # fs) g
          = foldl (merge_field values) (merge_field values out f) fs g"
    by simp
  also have "\<dots> = (if g \<in> set fs
      then (case values g of Some v \<Rightarrow> Some v
            | None \<Rightarrow> (case merge_field values out f g of None \<Rightarrow> Some PyNone | Some w \<Rightarrow> Some w))
      else merge_field values out f g)"
    by (rule Cons.IH)
  also have "\<dots> = (if g \<in> set (f # fs)
      then (case values g of Some v \<Rightarrow> Some v
            | None \<Rightarrow> (case out g of None \<Rightarrow> Some PyNone | Some w \<Rightarrow> Some w))
      else out g)"
    by (simp add: merge_field_apply split: option.splits)
  finally show ?case .
qed

lemma merge_reading_apply:
  "merge_reading values out g =
     (if g \<in> set output_fields
      then (case values g of Some v \<Rightarrow> Some v
            | None \<Rightarrow> (case out g of None \<Rightarrow> Some PyNone | Some w \<Rightarrow> Some w))
      else out g)"
  unfolding merge_reading_def by (rule foldl_merge_field)

lemma complete_iff: "complete r \<longleftrightarrow> (\<forall>f \<in> set output_fields. r f \<noteq> None)"
  by (simp add: complete_def list_all_iff)

lemma complete_merge_reading: "complete (merge_reading values out)"
  by (auto simp: complete_iff merge_reading_apply split: option.splits)

lemma map_of_merge_item:
  "map_of (merge_item otab (date, values)) =
     (map_of otab)(date \<mapsto>
        merge_reading values (case map_of otab date of None \<Rightarrow> Map.empty | Some r \<Rightarrow> r))"
  by (simp add: merge_item_def Let_def update_conv')

lemma keys_merge_item:
  "map fst (merge_item otab (date, values)) =
     (if date \<in> set (map fst otab) then map fst otab else map fst otab @ [date])"
  by (simp add: merge_item_def Let_def update_keys)

lemma distinct_merge_item:
  "distinct (map fst otab) \<Longrightarrow> distinct (map fst (merge_item otab itm))"
  by (cases itm) (simp add: merge_item_def Let_def distinct_update)

lemma set_update_subset:
  "set (AList.update k v al) \<subseteq> insert (k, v) (set al)"
  by (induction al) auto

lemma all_complete_iff: "all_complete tab \<longleftrightarrow> (\<forall>itm \<in> set tab. complete (snd itm))"
  by (simp add: all_complete_def list_all_iff)

lemma all_complete_merge_item:
  "all_complete otab \<Longrightarrow> all_complete (merge_item otab itm)"
proof (cases itm)
  case (Pair date vals)
  assume a: "all_complete otab"
  show ?thesis
    unfolding all_complete_iff
  proof
    fix x assume "x \<in> set (merge_item otab itm)"
    then have "x = (date, merge_reading vals (case map_of otab date of None \<Rightarrow> Map.empty | Some r \<Rightarrow> r)) \<or> x \<in> set otab"
      using set_update_subset by (fastforce simp: Pair merge_item_def Let_def)
    then show "complete (snd x)"
      using a by (auto simp: all_complete_iff complete_merge_reading)
  qed
qed

lemma all_complete_merge_file:
  "all_complete otab \<Longrightarrow> all_complete (merge_file otab dat)"
  unfolding merge_file_def
  by (induction dat arbitrary: otab) (simp_all add: all_complete_merge_item)

lemma distinct_merge_file:
  "distinct (map fst otab) \<Longrightarrow> distinct (map fst (merge_file otab dat))"
  unfolding merge_file_def
  by (induction dat arbitrary: otab) (simp_all add: distinct_merge_item)

lemma all_complete_merge_all_aux:
  "all_complete otab \<Longrightarrow> all_complete (foldl merge_file otab datas)"
  by (induction datas arbitrary: otab) (simp_all add: all_complete_merge_file)

lemma distinct_merge_all_aux:
  "distinct (map fst otab) \<Longrightarrow> distinct (map fst (foldl merge_file otab datas))"
  by (induction datas arbitrary: otab) (simp_all add: distinct_merge_file)

lemma all_complete_merge_all: "all_complete (merge_all datas)"
  unfolding merge_all_def by (rule all_complete_merge_all_aux) (simp add: all_complete_def)

lemma distinct_merge_all: "distinct (map fst (merge_all datas))"
  unfolding merge_all_def by (rule distinct_merge_all_aux) simp

text \<open>
  The reading that \<open>merge_file\<close> leaves at a date: untouched when the file has no
  reading there, merged once when it has one.
\<close>

lemma map_of_merge_file_notin:
  "k \<notin> fst ` set dat \<Longrightarrow> map_of (merge_file otab dat) k = map_of otab k"
  unfolding merge_file_def
proof (induction dat arbitrary: otab)
  case Nil
  then show ?case by simp
next
  case (Cons itm dat)
  obtain d v where itm: "itm = (d, v)" by (cases itm)
  from Cons.prems have "k \<noteq> d" "k \<notin> fst ` set dat" by (auto simp: itm)
  then show ?case
    using Cons.IH [of "merge_item otab itm"] by (simp add: itm map_of_merge_item)
qed

lemma map_of_merge_file_in:
  "distinct (map fst dat) \<Longrightarrow> map_of dat k = Some values \<Longrightarrow>
   map_of (merge_file otab dat) k =
     Some (merge_reading values (case map_of otab k of None \<Rightarrow> Map.empty | Some r \<Rightarrow> r))"
proof (induction dat arbitrary: otab)
  case Nil
  then show ?case by simp
next
  case (Cons itm dat)
  obtain d v where itm: "itm = (d, v)" by (cases itm)
  have mf: "merge_file otab (itm # dat) = merge_file (merge_item otab itm) dat"
    by (simp add: merge_file_def)
  show ?case
  proof (cases "k = d")
    case True
    with Cons.prems have v: "v = values" and notin: "k \<notin> fst ` set dat"
      by (auto simp: itm)
    show ?thesis
      unfolding mf using map_of_merge_file_notin [OF notin, of "merge_item otab itm"]
      by (simp add: itm True v map_of_merge_item)
  next
    case False
    with Cons.prems have "distinct (map fst dat)" "map_of dat k = Some values"
      by (auto simp: itm)
    from Cons.IH [OF this, of "merge_item otab itm"] show ?thesis
      unfolding mf using False by (simp add: itm map_of_merge_item)
  qed
qed

lemma getitem_Some [simp]: "d k = Some v \<Longrightarrow> getitem d k = Inr v"
  by (simp add: getitem_def)

lemma complete_fields:
  assumes "complete values"
  obtains a b c d e g where
    "values ''wet_temp_min'' = Some a" "values ''wet_temp_max'' = Some b"
    "values ''wet_temp_mean'' = Some c" "values ''wet_temp_samples'' = Some d"
    "values ''wetdry'' = Some e" "values ''duration'' = Some g"
  using assms by (auto simp: complete_def output_fields_def)

lemma complete_upd: "complete r \<Longrightarrow> complete (r(f \<mapsto> v))"
  by (simp add: complete_iff)

lemma capture_wet_ok:
  assumes "complete values" "wet_ok state"
  shows "\<exists>s1. capture_wet state values = Inr s1 \<and> wet_ok s1 \<and> s1 ''wetdry'' = state ''wetdry''"
proof -
  from assms(1) obtain a b c d e g where
    "values ''wet_temp_min'' = Some a" "values ''wet_temp_max'' = Some b"
    "values ''wet_temp_mean'' = Some c" "values ''wet_temp_samples'' = Some d"
    "values ''wetdry'' = Some e" "values ''duration'' = Some g"
    by (rule complete_fields)
  then show ?thesis
    using assms(2) by (simp add: capture_wet_def wet_ok_def)
qed

lemma fill_wet_ok:
  assumes "complete values" "wet_ok state"
  shows "\<exists>v1. fill_wet state values = Inr v1 \<and> complete v1 \<and>
           (\<forall>f. f \<notin> set interpolated_fields \<longrightarrow> v1 f = values f) \<and>
           v1 ''wetdry'' = values ''wetdry''"
proof (cases "state ''wet_temp_min''")
  case None
  then show ?thesis using assms by (simp add: fill_wet_def)
next
  case (Some a)
  with assms(2) obtain b c d where
    "state ''wet_temp_max'' = Some b" "state ''wet_temp_mean'' = Some c"
    "state ''wet_temp_samples'' = Some d"
    by (auto simp: wet_ok_def)
  then show ?thesis
    using Some assms(1) by (simp add: fill_wet_def complete_upd interpolated_fields_def)
qed

lemma capture_dry_ok:
  assumes "complete values" "wet_ok state"
  shows "\<exists>s2. capture_dry state values = Inr s2 \<and> wet_ok s2 \<and>
           s2 ''wetdry'' = (if is_set values ''wetdry'' then values ''wetdry'' else state ''wetdry'')"
proof -
  from assms(1) obtain a b c d e g where
    "values ''wet_temp_min'' = Some a" "values ''wet_temp_max'' = Some b"
    "values ''wet_temp_mean'' = Some c" "values ''wet_temp_samples'' = Some d"
    "values ''wetdry'' = Some e" "values ''duration'' = Some g"
    by (rule complete_fields)
  then show ?thesis
    using assms(2) by (simp add: capture_dry_def wet_ok_def)
qed

lemma fill_dry_ok:
  assumes "complete values"
  shows "\<exists>v2. fill_dry state values = Inr v2 \<and> complete v2 \<and>
           (\<forall>f. f \<notin> set interpolated_fields \<longrightarrow> v2 f = values f) \<and>
           v2 ''wetdry'' = (case state ''wetdry'' of None \<Rightarrow> values ''wetdry'' | Some a \<Rightarrow> Some a)"
  using assms
  by (cases "state ''wetdry''") (simp_all add: fill_dry_def complete_upd interpolated_fields_def)

lemma interp_item_ok:
  assumes "complete values" "wet_ok state"
  shows "\<exists>s' v'. interp_item state values = Inr (s', v') \<and> wet_ok s' \<and> complete v' \<and>
           (\<forall>f. f \<notin> set interpolated_fields \<longrightarrow> v' f = values f) \<and>
           s' ''wetdry'' = (if is_set values ''wetdry'' then values ''wetdry'' else state ''wetdry'') \<and>
           v' ''wetdry'' = (case s' ''wetdry'' of None \<Rightarrow> values ''wetdry'' | Some a \<Rightarrow> Some a)"
proof -
  from capture_wet_ok [OF assms] obtain s1 where
    s1: "capture_wet state values = Inr s1" "wet_ok s1" "s1 ''wetdry'' = state ''wetdry''"
    by blast
  from fill_wet_ok [OF assms(1) s1(2)] obtain v1 where
    v1: "fill_wet s1 values = Inr v1" "complete v1"
      "\<forall>f. f \<notin> set interpolated_fields \<longrightarrow> v1 f = values f"
      "v1 ''wetdry'' = values ''wetdry''"
    by blast
  from capture_dry_ok [OF v1(2) s1(2)] obtain s2 where
    s2: "capture_dry s1 v1 = Inr s2" "wet_ok s2"
      "s2 ''wetdry'' = (if is_set v1 ''wetdry'' then v1 ''wetdry'' else s1 ''wetdry'')"
    by blast
  from fill_dry_ok [OF v1(2), of s2] obtain v2 where
    v2: "fill_dry s2 v1 = Inr v2" "complete v2"
      "\<forall>f. f \<notin> set interpolated_fields \<longrightarrow> v2 f = v1 f"
      "v2 ''wetdry'' = (case s2 ''wetdry'' of None \<Rightarrow> v1 ''wetdry'' | Some a \<Rightarrow> Some a)"
    by blast
  have set_eq: "is_set v1 ''wetdry'' = is_set values ''wetdry''"
    by (simp add: is_set_def v1(4))
  have "interp_item state values = Inr (s2, v2)"
    by (simp add: interp_item_def s1(1) v1(1) s2(1) v2(1))
  moreover have "\<forall>f. f \<notin> set interpolated_fields \<longrightarrow> v2 f = values f"
    using v1(3) v2(3) by simp
  moreover have "s2 ''wetdry'' = (if is_set values ''wetdry'' then values ''wetdry'' else state ''wetdry'')"
    using s2(3) set_eq v1(4) s1(3) by simp
  moreover have "v2 ''wetdry'' = (case s2 ''wetdry'' of None \<Rightarrow> values ''wetdry'' | Some a \<Rightarrow> Some a)"
    using v2(4) v1(4) by (simp split: option.splits)
  ultimately show ?thesis using s2(2) v2(2) by blast
qed

lemma is_set_alt: "is_set values k \<longleftrightarrow> values k \<noteq> None \<and> values k \<noteq> Some PyNone"
  by (auto simp: is_set_def split: option.splits)

lemma interp_loop_ok:
  assumes "all_complete tab" "wet_ok state"
  shows "\<exists>tab'. interp_loop state tab = Inr tab' \<and> all_complete tab' \<and>
           list_all2 (\<lambda>x y. fst y = fst x \<and> (\<forall>f. f \<notin> set interpolated_fields \<longrightarrow> snd y f = snd x f)) tab tab' \<and>
           map (\<lambda>x. snd x ''wetdry'') tab' = carry (state ''wetdry'') (map (\<lambda>x. snd x ''wetdry'') tab)"
  using assms
proof (induction tab arbitrary: state)
  case Nil
  then show ?case by (simp add: all_complete_def)
next
  case (Cons itm tab)
  obtain time vals where itm: "itm = (time, vals)" by (cases itm)
  from Cons.prems have c: "complete vals" and ac: "all_complete tab"
    by (simp_all add: all_complete_def itm)
  from interp_item_ok [OF c Cons.prems(2)] obtain s' v' where
    sv: "interp_item state vals = Inr (s', v')" "wet_ok s'" "complete v'"
      "\<forall>f. f \<notin> set interpolated_fields \<longrightarrow> v' f = vals f"
      "s' ''wetdry'' = (if is_set vals ''wetdry'' then vals ''wetdry'' else state ''wetdry'')"
      "v' ''wetdry'' = (case s' ''wetdry'' of None \<Rightarrow> vals ''wetdry'' | Some a \<Rightarrow> Some a)"
    by blast
  from Cons.IH [OF ac sv(2)] obtain tab' where
    t: "interp_loop s' tab = Inr tab'" "all_complete tab'"
      "list_all2 (\<lambda>x y. fst y = fst x \<and> (\<forall>f. f \<notin> set interpolated_fields \<longrightarrow> snd y f = snd x f)) tab tab'"
      "map (\<lambda>x. snd x ''wetdry'') tab' = carry (s' ''wetdry'') (map (\<lambda>x. snd x ''wetdry'') tab)"
    by blast
  have "interp_loop state (itm # tab) = Inr ((time, v') # tab')"
    by (simp add: itm sv(1) t(1))
  moreover have "all_complete ((time, v') # tab')"
    using sv(3) t(2) by (simp add: all_complete_def)
  moreover have "list_all2 (\<lambda>x y. fst y = fst x \<and> (\<forall>f. f \<notin> set interpolated_fields \<longrightarrow> snd y f = snd x f))
      (itm # tab) ((time, v') # tab')"
    using sv(4) t(3) by (simp add: itm)
  moreover have "map (\<lambda>x. snd x ''wetdry'') ((time, v') # tab')
      = carry (state ''wetdry'') (map (\<lambda>x. snd x ''wetdry'') (itm # tab))"
    using sv(5,6) t(4) by (simp add: itm Let_def is_set_alt)
  ultimately show ?case by blast
qed

lemma update_append: "k \<notin> fst ` set al \<Longrightarrow> AList.update k v al = al @ [(k, v)]"
  by (induction al) auto

lemma rebuild_pick:
  "distinct ks \<Longrightarrow> set ks \<subseteq> fst ` set src \<Longrightarrow> set ks \<inter> fst ` set acc = {} \<Longrightarrow>
   rebuild src ks acc = Inr (acc @ pick src ks)"
proof (induction ks arbitrary: acc)
  case Nil
  then show ?case by (simp add: pick_def)
next
  case (Cons k ks)
  from Cons.prems(2) obtain v where v: "map_of src k = Some v"
    by (cases "map_of src k") (auto simp: map_of_eq_None_iff)
  from Cons.prems(3) have notin: "k \<notin> fst ` set acc" by auto
  have upd: "AList.update k v acc = acc @ [(k, v)]"
    by (rule update_append [OF notin])
  have "rebuild src ks (acc @ [(k, v)]) = Inr ((acc @ [(k, v)]) @ pick src ks)"
    using Cons.prems by (intro Cons.IH) auto
  then show ?case
    by (simp add: v upd pick_def)
qed

lemma keys_pick [simp]: "map fst (pick src ks) = ks"
  by (simp add: pick_def comp_def)

lemma map_of_pick:
  "k \<in> set ks \<Longrightarrow> map_of src k = Some r \<Longrightarrow> map_of (pick src ks) k = Some r"
  by (induction ks) (auto simp: pick_def)

lemma map_of_pick_None: "k \<notin> set ks \<Longrightarrow> map_of (pick src ks) k = None"
  by (simp add: map_of_eq_None_iff pick_def image_image)

lemma all_complete_pick:
  "all_complete src \<Longrightarrow> set ks \<subseteq> fst ` set src \<Longrightarrow> all_complete (pick src ks)"
proof -
  assume a: "all_complete src" and s: "set ks \<subseteq> fst ` set src"
  have "complete (the (map_of src k))" if "k \<in> set ks" for k
  proof -
    from that s obtain v where v: "map_of src k = Some v"
      by (cases "map_of src k") (auto simp: map_of_eq_None_iff)
    then have "(k, v) \<in> set src" by (rule map_of_SomeD)
    with a v show ?thesis by (auto simp: all_complete_iff)
  qed
  then show ?thesis by (simp add: all_complete_iff pick_def)
qed

lemma list_all2_map_of:
  "list_all2 (\<lambda>x y. fst y = fst x \<and> P (snd x) (snd y)) xs ys \<Longrightarrow> map_of xs k = Some r \<Longrightarrow>
   \<exists>r'. map_of ys k = Some r' \<and> P r r'"
  by (induction xs ys rule: list_all2_induct) (auto split: if_splits)

lemma list_all2_keys:
  "list_all2 (\<lambda>x y. fst y = fst x \<and> P (snd x) (snd y)) xs ys \<Longrightarrow> map fst ys = map fst xs"
  by (induction xs ys rule: list_all2_induct) auto

lemma sort_rev_sort: "distinct xs \<Longrightarrow> sort (rev (sort (xs :: 'a :: linorder list))) = sort xs"
  by (rule sorted_distinct_set_unique) simp_all

lemma interpolate_props:
  assumes d: "distinct (map fst otab)" and c: "all_complete otab"
  shows "\<exists>temp' final.
     interpolate_desc otab = Inr temp' \<and> interpolate otab = Inr final \<and>
     map fst temp' = sorted_keys_desc otab \<and>
     final = pick temp' (sort (map fst otab)) \<and>
     all_complete temp' \<and>
     list_all2 (\<lambda>x y. fst y = fst x \<and> same_but_interpolated (snd x) (snd y))
        (pick otab (sorted_keys_desc otab)) temp' \<and>
     map (\<lambda>x. snd x ''wetdry'') temp' =
        carry None (map (\<lambda>x. snd x ''wetdry'') (pick otab (sorted_keys_desc otab)))"
proof -
  let ?desc = "sorted_keys_desc otab"
  have dd: "distinct ?desc" and sd: "set ?desc = fst ` set otab"
    using d by (simp_all add: sorted_keys_desc_def)
  have r1: "rebuild otab ?desc [] = Inr (pick otab ?desc)"
    using rebuild_pick [of ?desc otab "[]"] dd sd by simp
  have c1: "all_complete (pick otab ?desc)"
    using all_complete_pick [OF c] sd by simp
  have w: "wet_ok Map.empty" by (simp add: wet_ok_def)
  from interp_loop_ok [OF c1 w] obtain temp' where
    t: "interp_loop Map.empty (pick otab ?desc) = Inr temp'" "all_complete temp'"
       "list_all2 (\<lambda>x y. fst y = fst x \<and> (\<forall>f. f \<notin> set interpolated_fields \<longrightarrow> snd y f = snd x f))
          (pick otab ?desc) temp'"
       "map (\<lambda>x. snd x ''wetdry'') temp' =
          carry (Map.empty ''wetdry'') (map (\<lambda>x. snd x ''wetdry'') (pick otab ?desc))"
    by blast
  have k: "map fst temp' = ?desc"
    using list_all2_keys [OF t(3)] by simp
  have desc: "interpolate_desc otab = Inr temp'"
    by (simp add: interpolate_desc_def r1 t(1))
  have asc: "sorted_keys_asc temp' = sort (map fst otab)"
    by (simp add: sorted_keys_asc_def k sorted_keys_desc_def sort_rev_sort [OF d])
  have "rebuild temp' (sort (map fst otab)) [] = Inr ([] @ pick temp' (sort (map fst otab)))"
  proof (rule rebuild_pick)
    show "distinct (sort (map fst otab))" using d by simp
    have "fst ` set temp' = set (map fst temp')" by simp
    also have "\<dots> = set (map fst otab)" unfolding k using sd by simp
    finally show "set (sort (map fst otab)) \<subseteq> fst ` set temp'" by simp
    show "set (sort (map fst otab)) \<inter> fst ` set [] = {}" by simp
  qed
  then have fin: "interpolate otab = Inr (pick temp' (sort (map fst otab)))"
    by (simp add: interpolate_def desc asc)
  show ?thesis
    using desc fin k t(2) t(3) t(4) by (simp add: same_but_interpolated_def)
qed

lemma field_at_Nil [simp]: "field_at [] k f = None"
  by (simp add: field_at_def)

lemma field_at_merge_file:
  assumes "distinct (map fst dat)"
  shows "field_at (merge_file otab dat) k f =
     (case map_of dat k of
        None \<Rightarrow> field_at otab k f
      | Some vals \<Rightarrow>
          (if f \<in> set output_fields
           then (case vals f of
                   Some v \<Rightarrow> Some v
                 | None \<Rightarrow> (case field_at otab k f of None \<Rightarrow> Some PyNone | Some w \<Rightarrow> Some w))
           else field_at otab k f))"
proof (cases "map_of dat k")
  case None
  then have "k \<notin> fst ` set dat" by (simp add: map_of_eq_None_iff)
  from map_of_merge_file_notin [OF this] show ?thesis
    by (simp add: None field_at_def)
next
  case (Some vals)
  from map_of_merge_file_in [OF assms Some] show ?thesis
    by (simp add: Some field_at_def merge_reading_apply split: option.splits)
qed

lemma set_keys_merge_file:
  "set (map fst (merge_file otab dat)) = set (map fst otab) \<union> set (map fst dat)"
  unfolding merge_file_def
proof (induction dat arbitrary: otab)
  case Nil
  then show ?case by simp
next
  case (Cons itm dat)
  obtain d v where itm: "itm = (d, v)" by (cases itm)
  have "set (map fst (merge_item otab itm)) = insert d (set (map fst otab))"
    by (auto simp: itm keys_merge_item)
  then show ?case
    using Cons.IH [of "merge_item otab itm"] by (auto simp: itm)
qed

lemma ex_temp_distinct: "distinct (map fst ex_temp_data)"
  by (simp add: ex_temp_data_def)

lemma ex_wetdry_distinct: "distinct (map fst ex_wetdry_data)"
  by (simp add: ex_wetdry_data_def)

lemma ex_merged_unfold: "ex_merged = merge_file (merge_file [] ex_temp_data) ex_wetdry_data"
  by (simp add: ex_merged_def merge_all_def)

lemma keys_merge_file_fold:
  "map fst (merge_file otab dat) =
     foldl (\<lambda>ks k. if k \<in> set ks then ks else ks @ [k]) (map fst otab) (map fst dat)"
  unfolding merge_file_def
proof (induction dat arbitrary: otab)
  case Nil
  then show ?case by simp
next
  case (Cons itm dat)
  obtain d v where itm: "itm = (d, v)" by (cases itm)
  show ?case
    using Cons.IH [of "merge_item otab itm"] by (simp add: itm keys_merge_item)
qed

lemma set_keys_merge_all:
  "set (map fst (merge_all datas)) = (\<Union>dat \<in> set datas. set (map fst dat))"
proof -
  have "set (map fst (foldl merge_file otab datas))
          = set (map fst otab) \<union> (\<Union>dat \<in> set datas. set (map fst dat))" for otab
  proof (induction datas arbitrary: otab)
    case Nil
    then show ?case by simp
  next
    case (Cons dat datas)
    show ?case
      unfolding foldl_Cons Cons.IH set_keys_merge_file by auto
  qed
  from this [of "[]"] show ?thesis by (simp add: merge_all_def)
qed

lemma field_at_in_keys: "field_at tab k f \<noteq> None \<Longrightarrow> k \<in> set (map fst tab)"
  by (cases "map_of tab k") (auto simp: field_at_def dest: map_of_SomeD intro: rev_image_eqI)

lemma snd_field_at:
  "distinct (map fst xs) \<Longrightarrow> map (\<lambda>x. snd x f) xs = map (\<lambda>k. field_at xs k f) (map fst xs)"
proof (induction xs)
  case Nil
  then show ?case by simp
next
  case (Cons x xs)
  have "field_at (x # xs) k f = field_at xs k f" if "k \<in> set (map fst xs)" for k
  proof -
    from Cons.prems have "fst x \<notin> set (map fst xs)" by simp
    with that have "k \<noteq> fst x" by blast
    then show ?thesis by (cases x) (simp add: field_at_def)
  qed
  then have "map (\<lambda>k. field_at (x # xs) k f) (map fst xs) = map (\<lambda>k. field_at xs k f) (map fst xs)"
    by (intro map_cong) simp_all
  moreover have "field_at (x # xs) (fst x) f = snd x f"
    by (cases x) (simp add: field_at_def)
  ultimately show ?case using Cons by simp
qed

lemma field_at_pick:
  "set ks = fst ` set src \<Longrightarrow> field_at (pick src ks) k f = field_at src k f"
proof (cases "map_of src k")
  case None
  assume s: "set ks = fst ` set src"
  from None have "k \<notin> fst ` set src" by (simp add: map_of_eq_None_iff)
  with s have "k \<notin> set ks" by simp
  then show ?thesis by (simp add: field_at_def map_of_pick_None None)
next
  case (Some r)
  assume s: "set ks = fst ` set src"
  from Some have "(k, r) \<in> set src" by (rule map_of_SomeD)
  then have "k \<in> fst ` set src" by force
  with s have "k \<in> set ks" by simp
  from map_of_pick [OF this Some] show ?thesis by (simp add: field_at_def Some)
qed

lemma complete_field_at:
  "all_complete tab \<Longrightarrow> k \<in> set (map fst tab) \<Longrightarrow> f \<in> set output_fields \<Longrightarrow>
   field_at tab k f \<noteq> None"
proof -
  assume a: "all_complete tab" and k: "k \<in> set (map fst tab)" and f: "f \<in> set output_fields"
  from k obtain r where r: "map_of tab k = Some r"
    by (cases "map_of tab k") (auto simp: map_of_eq_None_iff)
  then have "(k, r) \<in> set tab" by (rule map_of_SomeD)
  with a have "complete r" by (auto simp: all_complete_iff)
  with f show ?thesis by (simp add: field_at_def r complete_iff)
qed

lemma interpolate_fields:
  assumes d: "distinct (map fst otab)" and c: "all_complete otab"
  shows "\<exists>final. interpolate otab = Inr final \<and>
     map fst final = sort (map fst otab) \<and>
     (\<forall>k f. f \<notin> set interpolated_fields \<longrightarrow> field_at final k f = field_at otab k f) \<and>
     map (\<lambda>k. field_at final k ''wetdry'') (sorted_keys_desc otab) =
       carry None (map (\<lambda>k. field_at otab k ''wetdry'') (sorted_keys_desc otab))"
proof -
  let ?desc = "sorted_keys_desc otab"
  let ?R = "\<lambda>x y. fst y = fst x \<and> same_but_interpolated (snd x) (snd y)"
  from interpolate_props [OF d c] obtain temp' final where
    p: "interpolate otab = Inr final" "map fst temp' = ?desc"
       "final = pick temp' (sort (map fst otab))"
       "list_all2 ?R (pick otab ?desc) temp'"
       "map (\<lambda>x. snd x ''wetdry'') temp' =
          carry None (map (\<lambda>x. snd x ''wetdry'') (pick otab ?desc))"
    by blast
  have sd: "set ?desc = fst ` set otab" and dd: "distinct ?desc"
    using d by (simp_all add: sorted_keys_desc_def)
  have keys': "fst ` set temp' = set ?desc"
    using p(2) by (metis set_map)
  have fin: "field_at final k f = field_at temp' k f" for k f
    unfolding p(3) by (rule field_at_pick) (simp add: keys' sd)
  have pk: "field_at (pick otab ?desc) k f = field_at otab k f" for k f
    by (rule field_at_pick) (rule sd)
  have frame: "field_at final k f = field_at otab k f" if "f \<notin> set interpolated_fields" for k f
  proof (cases "map_of (pick otab ?desc) k")
    case None
    then have "k \<notin> set ?desc" by (simp add: map_of_eq_None_iff image_image pick_def)
    then have "map_of temp' k = None"
      using keys' by (simp add: map_of_eq_None_iff)
    then have "field_at temp' k f = field_at (pick otab ?desc) k f"
      by (simp add: field_at_def None)
    then show ?thesis by (simp add: fin pk)
  next
    case (Some r)
    from list_all2_map_of [of "same_but_interpolated", OF p(4) Some] obtain r' where
      "map_of temp' k = Some r'" "same_but_interpolated r r'"
      by blast
    then have "field_at temp' k f = field_at (pick otab ?desc) k f"
      using that by (simp add: field_at_def Some same_but_interpolated_def)
    then show ?thesis by (simp add: fin pk)
  qed
  have dt: "distinct (map fst temp')" using p(2) dd by simp
  have dp: "distinct (map fst (pick otab ?desc))" using dd by simp
  have "map (\<lambda>k. field_at final k ''wetdry'') ?desc = map (\<lambda>x. snd x ''wetdry'') temp'"
    using snd_field_at [OF dt, of "''wetdry''"] by (simp add: p(2) fin)
  moreover have "map (\<lambda>x. snd x ''wetdry'') (pick otab ?desc) = map (\<lambda>k. field_at otab k ''wetdry'') ?desc"
    using snd_field_at [OF dp, of "''wetdry''"] by (simp add: pk)
  ultimately have "map (\<lambda>k. field_at final k ''wetdry'') ?desc =
       carry None (map (\<lambda>k. field_at otab k ''wetdry'') ?desc)"
    using p(5) by simp
  moreover have "map fst final = sort (map fst otab)"
    by (simp add: p(3))
  ultimately show ?thesis using p(1) frame by blast
qed

lemma ex_keys: "map fst ex_merged = [''2022-01-01 00:00:00'', ''2022-01-01 01:00:00'',
   ''2022-01-01 02:00:00'', ''2022-01-01 03:00:00'', ''2022-01-01 04:00:00'']"
  by (simp add: ex_merged_unfold keys_merge_file_fold ex_temp_data_def ex_wetdry_data_def)

lemma ex_desc: "sorted_keys_desc ex_merged = [''2022-01-01 04:00:00'', ''2022-01-01 03:00:00'',
   ''2022-01-01 02:00:00'', ''2022-01-01 01:00:00'', ''2022-01-01 00:00:00'']"
  by (simp add: sorted_keys_desc_def ex_keys)

lemmas ex_eval = ex_merged_unfold field_at_merge_file ex_temp_data_def ex_wetdry_data_def
  output_fields_def

lemma ex_wetdry_values:
  "field_at ex_merged ''2022-01-01 04:00:00'' ''wetdry'' = Some (PyStr ''wet'')"
  "field_at ex_merged ''2022-01-01 03:00:00'' ''wetdry'' = Some PyNone"
  "field_at ex_merged ''2022-01-01 02:00:00'' ''wetdry'' = Some PyNone"
  "field_at ex_merged ''2022-01-01 01:00:00'' ''wetdry'' = Some (PyStr ''dry'')"
  "field_at ex_merged ''2022-01-01 00:00:00'' ''wetdry'' = Some PyNone"
  by (simp_all add: ex_eval)

lemma ex_interpolated:
  "\<exists>final. interpolate ex_merged = Inr final \<and>
     map fst final = sort (map fst ex_merged) \<and>
     (\<forall>k f. f \<notin> set interpolated_fields \<longrightarrow> field_at final k f = field_at ex_merged k f) \<and>
     map (\<lambda>k. field_at final k ''wetdry'') (sorted_keys_desc ex_merged) =
       carry None (map (\<lambda>k. field_at ex_merged k ''wetdry'') (sorted_keys_desc ex_merged))"
  unfolding ex_merged_def
  by (rule interpolate_fields) (rule distinct_merge_all, rule all_complete_merge_all)

lemma ex_interpolated_wetdry:
  "interpolated_field ex_merged ''2022-01-01 04:00:00'' ''wetdry'' = Inr (Some (PyStr ''wet''))"
  "interpolated_field ex_merged ''2022-01-01 03:00:00'' ''wetdry'' = Inr (Some (PyStr ''wet''))"
  "interpolated_field ex_merged ''2022-01-01 02:00:00'' ''wetdry'' = Inr (Some (PyStr ''wet''))"
  "interpolated_field ex_merged ''2022-01-01 01:00:00'' ''wetdry'' = Inr (Some (PyStr ''dry''))"
  "interpolated_field ex_merged ''2022-01-01 00:00:00'' ''wetdry'' = Inr (Some (PyStr ''dry''))"
proof -
  from ex_interpolated obtain final where
    f: "interpolate ex_merged = Inr final"
       "map (\<lambda>k. field_at final k ''wetdry'') (sorted_keys_desc ex_merged) =
          carry None (map (\<lambda>k. field_at ex_merged k ''wetdry'') (sorted_keys_desc ex_merged))"
    by blast
  from f(2) have
    "field_at final ''2022-01-01 04:00:00'' ''wetdry'' = Some (PyStr ''wet'')"
    "field_at final ''2022-01-01 03:00:00'' ''wetdry'' = Some (PyStr ''wet'')"
    "field_at final ''2022-01-01 02:00:00'' ''wetdry'' = Some (PyStr ''wet'')"
    "field_at final ''2022-01-01 01:00:00'' ''wetdry'' = Some (PyStr ''dry'')"
    "field_at final ''2022-01-01 00:00:00'' ''wetdry'' = Some (PyStr ''dry'')"
    by (simp_all add: ex_desc ex_wetdry_values Let_def)
  then show
    "interpolated_field ex_merged ''2022-01-01 04:00:00'' ''wetdry'' = Inr (Some (PyStr ''wet''))"
    "interpolated_field ex_merged ''2022-01-01 03:00:00'' ''wetdry'' = Inr (Some (PyStr ''wet''))"
    "interpolated_field ex_merged ''2022-01-01 02:00:00'' ''wetdry'' = Inr (Some (PyStr ''wet''))"
    "interpolated_field ex_merged ''2022-01-01 01:00:00'' ''wetdry'' = Inr (Some (PyStr ''dry''))"
    "interpolated_field ex_merged ''2022-01-01 00:00:00'' ''wetdry'' = Inr (Some (PyStr ''dry''))"
    by (simp_all add: interpolated_field_def f(1))
qed

lemma ex_interpolated_other:
  "f \<notin> set interpolated_fields \<Longrightarrow>
   interpolated_field ex_merged k f = Inr (field_at ex_merged k f)"
  using ex_interpolated by (auto simp: interpolated_field_def)

lemma merge_all_snoc: "merge_all (datas @ [dat]) = merge_file (merge_all datas) dat"
  by (simp add: merge_all_def)

section \<open>The calendar\<close>

text \<open>
  \<open>ord2ymd\<close> inverts \<open>ymd2ord\<close> on every valid date. The month and the day are
  recovered from the day of the year (one lemma for each month); the year from the
  decomposition of \<open>y - 1\<close> into cycles of 400, 100, 4 and 1 years.
\<close>

lemma month_cases:
  assumes "1 \<le> (m::int)" "m \<le> 12"
  obtains "m = 1" | "m = 2" | "m = 3" | "m = 4" | "m = 5" | "m = 6" | "m = 7" | "m = 8"
    | "m = 9" | "m = 10" | "m = 11" | "m = 12"
proof -
  from assms have "m = 1 \<or> m = 2 \<or> m = 3 \<or> m = 4 \<or> m = 5 \<or> m = 6 \<or> m = 7 \<or> m = 8
    \<or> m = 9 \<or> m = 10 \<or> m = 11 \<or> m = 12"
    by arith
  then show ?thesis using that by blast
qed

lemma day_cases:
  assumes "1 \<le> (d::int)" "d \<le> 31"
  shows "d = 1 \<or> d = 2 \<or> d = 3 \<or> d = 4 \<or> d = 5 \<or> d = 6 \<or> d = 7 \<or> d = 8 \<or> d = 9 \<or> d = 10 \<or> d = 11 \<or> d = 12 \<or> d = 13 \<or> d = 14 \<or> d = 15 \<or> d = 16 \<or> d = 17 \<or> d = 18 \<or> d = 19 \<or> d = 20 \<or> d = 21 \<or> d = 22 \<or> d = 23 \<or> d = 24 \<or> d = 25 \<or> d = 26 \<or> d = 27 \<or> d = 28 \<or> d = 29 \<or> d = 30 \<or> d = 31"
  using assms by arith

lemma month_day_1:
  assumes "1 \<le> d" "d \<le> 31"
  shows "month_day leap (0 + d - 1) = (1, d)"
proof -
  have "d \<le> 31" using assms by (simp split: if_splits)
  from day_cases [OF assms(1) this] assms(2) show ?thesis
    by (cases leap) (auto simp: month_day_def Let_def)
qed

lemma month_day_2:
  assumes "1 \<le> d" "d \<le> (if leap then 29 else 28)"
  shows "month_day leap (31 + d - 1) = (2, d)"
proof -
  have "d \<le> 31" using assms by (simp split: if_splits)
  from day_cases [OF assms(1) this] assms(2) show ?thesis
    by (cases leap) (auto simp: month_day_def Let_def)
qed

lemma month_day_3:
  assumes "1 \<le> d" "d \<le> 31"
  shows "month_day leap ((if leap then 60 else 59) + d - 1) = (3, d)"
proof -
  have "d \<le> 31" using assms by (simp split: if_splits)
  from day_cases [OF assms(1) this] assms(2) show ?thesis
    by (cases leap) (auto simp: month_day_def Let_def)
qed

lemma month_day_4:
  assumes "1 \<le> d" "d \<le> 30"
  shows "month_day leap ((if leap then 91 else 90) + d - 1) = (4, d)"
proof -
  have "d \<le> 31" using assms by (simp split: if_splits)
  from day_cases [OF assms(1) this] assms(2) show ?thesis
    by (cases leap) (auto simp: month_day_def Let_def)
qed

lemma month_day_5:
  assumes "1 \<le> d" "d \<le> 31"
  shows "month_day leap ((if leap then 121 else 120) + d - 1) = (5, d)"
proof -
  have "d \<le> 31" using assms by (simp split: if_splits)
  from day_cases [OF assms(1) this] assms(2) show ?thesis
    by (cases leap) (auto simp: month_day_def Let_def)
qed

lemma month_day_6:
  assumes "1 \<le> d" "d \<le> 30"
  shows "month_day leap ((if leap then 152 else 151) + d - 1) = (6, d)"
proof -
  have "d \<le> 31" using assms by (simp split: if_splits)
  from day_cases [OF assms(1) this] assms(2) show ?thesis
    by (cases leap) (auto simp: month_day_def Let_def)
qed

lemma month_day_7:
  assumes "1 \<le> d" "d \<le> 31"
  shows "month_day leap ((if leap then 182 else 181) + d - 1) = (7, d)"
proof -
  have "d \<le> 31" using assms by (simp split: if_splits)
  from day_cases [OF assms(1) this] assms(2) show ?thesis
    by (cases leap) (auto simp: month_day_def Let_def)
qed

lemma month_day_8:
  assumes "1 \<le> d" "d \<le> 31"
  shows "month_day leap ((if leap then 213 else 212) + d - 1) = (8, d)"
proof -
  have "d \<le> 31" using assms by (simp split: if_splits)
  from day_cases [OF assms(1) this] assms(2) show ?thesis
    by (cases leap) (auto simp: month_day_def Let_def)
qed

lemma month_day_9:
  assumes "1 \<le> d" "d \<le> 30"
  shows "month_day leap ((if leap then 244 else 243) + d - 1) = (9, d)"
proof -
  have "d \<le> 31" using assms by (simp split: if_splits)
  from day_cases [OF assms(1) this] assms(2) show ?thesis
    by (cases leap) (auto simp: month_day_def Let_def)
qed

lemma month_day_10:
  assumes "1 \<le> d" "d \<le> 31"
  shows "month_day leap ((if leap then 274 else 273) + d - 1) = (10, d)"
proof -
  have "d \<le> 31" using assms by (simp split: if_splits)
  from day_cases [OF assms(1) this] assms(2) show ?thesis
    by (cases leap) (auto simp: month_day_def Let_def)
qed

lemma month_day_11:
  assumes "1 \<le> d" "d \<le> 30"
  shows "month_day leap ((if leap then 305 else 304) + d - 1) = (11, d)"
proof -
  have "d \<le> 31" using assms by (simp split: if_splits)
  from day_cases [OF assms(1) this] assms(2) show ?thesis
    by (cases leap) (auto simp: month_day_def Let_def)
qed

lemma month_day_12:
  assumes "1 \<le> d" "d \<le> 31"
  shows "month_day leap ((if leap then 335 else 334) + d - 1) = (12, d)"
proof -
  have "d \<le> 31" using assms by (simp split: if_splits)
  from day_cases [OF assms(1) this] assms(2) show ?thesis
    by (cases leap) (auto simp: month_day_def Let_def)
qed

lemma month_day_correct:
  assumes "1 \<le> m" "m \<le> 12" "1 \<le> d"
    and "d \<le> (if m = 2 then (if leap then 29 else 28)
               else if m = 4 \<or> m = 6 \<or> m = 9 \<or> m = 11 then 30 else 31)"
  shows "month_day leap
           ([0, 31, 59, 90, 120, 151, 181, 212, 243, 273, 304, 334] ! nat (m - 1)
              + (if 2 < m \<and> leap then 1 else 0) + d - 1) = (m, d)"
proof -
  from assms(1,2) show ?thesis
  proof (cases rule: month_cases)
    case 1
    with assms(3,4) month_day_1 [of d leap] show ?thesis by (cases leap) simp_all
  next
    case 2
    with assms(3,4) month_day_2 [of d leap] show ?thesis by (cases leap) simp_all
  next
    case 3
    with assms(3,4) month_day_3 [of d leap] show ?thesis by (cases leap) simp_all
  next
    case 4
    with assms(3,4) month_day_4 [of d leap] show ?thesis by (cases leap) simp_all
  next
    case 5
    with assms(3,4) month_day_5 [of d leap] show ?thesis by (cases leap) simp_all
  next
    case 6
    with assms(3,4) month_day_6 [of d leap] show ?thesis by (cases leap) simp_all
  next
    case 7
    with assms(3,4) month_day_7 [of d leap] show ?thesis by (cases leap) simp_all
  next
    case 8
    with assms(3,4) month_day_8 [of d leap] show ?thesis by (cases leap) simp_all
  next
    case 9
    with assms(3,4) month_day_9 [of d leap] show ?thesis by (cases leap) simp_all
  next
    case 10
    with assms(3,4) month_day_10 [of d leap] show ?thesis by (cases leap) simp_all
  next
    case 11
    with assms(3,4) month_day_11 [of d leap] show ?thesis by (cases leap) simp_all
  next
    case 12
    with assms(3,4) month_day_12 [of d leap] show ?thesis by (cases leap) simp_all
  qed
qed

lemma year_decomp:
  obtains q b c e :: int where "y - 1 = 400 * q + 100 * b + 4 * c + e"
    "0 \<le> b" "b \<le> 3" "0 \<le> c" "c \<le> 24" "0 \<le> e" "e \<le> 3"
proof
  let ?p = "y - 1"
  let ?r = "?p mod 400"
  let ?s = "?r mod 100"
  show "y - 1 = 400 * (?p div 400) + 100 * (?r div 100) + 4 * (?s div 4) + ?s mod 4"
    by (simp add: algebra_simps)
  show "0 \<le> ?r div 100" "?r div 100 \<le> 3" "0 \<le> ?s div 4" "?s div 4 \<le> 24"
    "0 \<le> ?s mod 4" "?s mod 4 \<le> 3"
    by (simp_all add: pos_imp_zdiv_nonneg_iff)
qed

lemma days_before_year_decomp:
  assumes "y - 1 = 400 * q + 100 * b + 4 * c + e"
    "0 \<le> b" "b \<le> 3" "0 \<le> c" "c \<le> 24" "0 \<le> e" "e \<le> 3"
  shows "days_before_year y = 146097 * q + 36524 * b + 1461 * c + 365 * e"
proof -
  have d4: "(y - 1) div 4 = 100 * q + 25 * b + c"
    by (rule int_div_pos_eq [where r = e]) (use assms in simp_all)
  have d100: "(y - 1) div 100 = 4 * q + b"
    by (rule int_div_pos_eq [where r = "4 * c + e"]) (use assms in simp_all)
  have d400: "(y - 1) div 400 = q"
    by (rule int_div_pos_eq [where r = "100 * b + 4 * c + e"]) (use assms in simp_all)
  show ?thesis
    unfolding days_before_year_def Let_def d4 d100 d400 using assms(1) by simp
qed

lemma is_leap_decomp:
  assumes "y - 1 = 400 * q + 100 * b + 4 * c + e"
    "0 \<le> b" "b \<le> 3" "0 \<le> c" "c \<le> 24" "0 \<le> e" "e \<le> 3"
  shows "is_leap y \<longleftrightarrow> e = 3 \<and> (c \<noteq> 24 \<or> b = 3)"
proof -
  have y: "y = 400 * q + 100 * b + 4 * c + e + 1" using assms(1) by simp
  have m4: "y mod 4 = (if e = 3 then 0 else e + 1)"
  proof (cases "e = 3")
    case True
    have "y mod 4 = 0"
      by (rule int_mod_pos_eq [where q = "100 * q + 25 * b + c + 1"]) (simp_all add: y True)
    with True show ?thesis by simp
  next
    case False
    have "y mod 4 = e + 1"
      by (rule int_mod_pos_eq [where q = "100 * q + 25 * b + c"]) (use assms False in \<open>simp_all add: y\<close>)
    with False show ?thesis by simp
  qed
  have m100: "y mod 100 = (if c = 24 \<and> e = 3 then 0 else 4 * c + e + 1)"
  proof (cases "c = 24 \<and> e = 3")
    case True
    have "y mod 100 = 0"
      by (rule int_mod_pos_eq [where q = "4 * q + b + 1"]) (simp_all add: y True)
    with True show ?thesis by simp
  next
    case False
    have "y mod 100 = 4 * c + e + 1"
      by (rule int_mod_pos_eq [where q = "4 * q + b"]) (use assms False in \<open>auto simp: y\<close>)
    with False show ?thesis by simp
  qed
  have m400: "y mod 400 = (if b = 3 \<and> c = 24 \<and> e = 3 then 0 else 100 * b + 4 * c + e + 1)"
  proof (cases "b = 3 \<and> c = 24 \<and> e = 3")
    case True
    have "y mod 400 = 0"
      by (rule int_mod_pos_eq [where q = "q + 1"]) (simp_all add: y True)
    with True show ?thesis by simp
  next
    case False
    have "y mod 400 = 100 * b + 4 * c + e + 1"
      by (rule int_mod_pos_eq [where q = q]) (use assms False in \<open>auto simp: y\<close>)
    with False show ?thesis by simp
  qed
  show ?thesis
    unfolding is_leap_def m4 m100 m400 using assms by auto
qed

lemma split_days:
  fixes q b c e doy :: int
  assumes "0 \<le> b" "b \<le> 3" "0 \<le> c" "c \<le> 24" "0 \<le> e" "e \<le> 3" "0 \<le> doy" "doy \<le> 364"
  shows "(146097 * q + 36524 * b + 1461 * c + 365 * e + doy) div 146097 = q"
    and "(146097 * q + 36524 * b + 1461 * c + 365 * e + doy) mod 146097
           = 36524 * b + 1461 * c + 365 * e + doy"
    and "(36524 * b + 1461 * c + 365 * e + doy) div 36524 = b"
    and "(36524 * b + 1461 * c + 365 * e + doy) mod 36524 = 1461 * c + 365 * e + doy"
    and "(1461 * c + 365 * e + doy) div 1461 = c"
    and "(1461 * c + 365 * e + doy) mod 1461 = 365 * e + doy"
    and "(365 * e + doy) div 365 = e"
    and "(365 * e + doy) mod 365 = doy"
proof -
  show "(146097 * q + 36524 * b + 1461 * c + 365 * e + doy) div 146097 = q"
    by (rule int_div_pos_eq [where r = "36524 * b + 1461 * c + 365 * e + doy"])
       (use assms in simp_all)
  show "(146097 * q + 36524 * b + 1461 * c + 365 * e + doy) mod 146097
           = 36524 * b + 1461 * c + 365 * e + doy"
    by (rule int_mod_pos_eq [where q = q]) (use assms in simp_all)
  show "(36524 * b + 1461 * c + 365 * e + doy) div 36524 = b"
    by (rule int_div_pos_eq [where r = "1461 * c + 365 * e + doy"]) (use assms in simp_all)
  show "(36524 * b + 1461 * c + 365 * e + doy) mod 36524 = 1461 * c + 365 * e + doy"
    by (rule int_mod_pos_eq [where q = b]) (use assms in simp_all)
  show "(1461 * c + 365 * e + doy) div 1461 = c"
    by (rule int_div_pos_eq [where r = "365 * e + doy"]) (use assms in simp_all)
  show "(1461 * c + 365 * e + doy) mod 1461 = 365 * e + doy"
    by (rule int_mod_pos_eq [where q = c]) (use assms in simp_all)
  show "(365 * e + doy) div 365 = e"
    by (rule int_div_pos_eq [where r = doy]) (use assms in simp_all)
  show "(365 * e + doy) mod 365 = doy"
    by (rule int_mod_pos_eq [where q = e]) (use assms in simp_all)
qed

lemma ord2ymd_normal:
  fixes q b c e doy :: int
  assumes "0 \<le> b" "b \<le> 3" "0 \<le> c" "c \<le> 24" "0 \<le> e" "e \<le> 3" "0 \<le> doy" "doy \<le> 364"
  shows "ord2ymd (146097 * q + 36524 * b + 1461 * c + 365 * e + doy + 1) =
     (case month_day (e = 3 \<and> (c \<noteq> 24 \<or> b = 3)) doy of
        (m, d) \<Rightarrow> (400 * q + 100 * b + 4 * c + e + 1, m, d))"
proof -
  note s = split_days [OF assms]
  have n: "146097 * q + 36524 * b + 1461 * c + 365 * e + doy + 1 - 1
             = 146097 * q + 36524 * b + 1461 * c + 365 * e + doy"
    by simp
  have ne: "\<not> (e = 4 \<or> b = 4)" using assms by simp
  have y: "q * 400 + 1 + b * 100 + c * 4 + e = 400 * q + 100 * b + 4 * c + e + 1"
    by simp
  show ?thesis
    unfolding ord2ymd_def n Let_def s y using ne by (simp only: if_False)
qed

lemma ord2ymd_last_day:
  fixes q b c :: int
  assumes "0 \<le> b" "b \<le> 3" "0 \<le> c" "c \<le> 24" "c \<noteq> 24 \<or> b = 3"
  shows "ord2ymd (146097 * q + 36524 * b + 1461 * c + 365 * 3 + 365 + 1) =
     (400 * q + 100 * b + 4 * c + 3 + 1, 12, 31)"
proof (cases "c = 24")
  case True
  with assms have b: "b = 3" by simp
  have n: "146097 * q + 36524 * b + 1461 * c + 365 * 3 + 365 + 1 - 1 = 146097 * q + 146096"
    by (simp add: b True)
  have 1: "(146097 * q + 146096) div 146097 = q"
    by (rule int_div_pos_eq [where r = 146096]) simp_all
  have 2: "(146097 * q + 146096) mod 146097 = 146096"
    by (rule int_mod_pos_eq [where q = q]) simp_all
  have 3: "(146096 :: int) div 36524 = 4" by simp
  show ?thesis
    unfolding ord2ymd_def n Let_def 1 2 3 by (simp add: b True)
next
  case False
  with assms have c: "c \<le> 23" by simp
  let ?n = "146097 * q + 36524 * b + 1461 * c + 1460"
  have n: "146097 * q + 36524 * b + 1461 * c + 365 * 3 + 365 + 1 - 1 = ?n"
    by simp
  have 1: "?n div 146097 = q"
    by (rule int_div_pos_eq [where r = "36524 * b + 1461 * c + 1460"]) (use assms c in simp_all)
  have 2: "?n mod 146097 = 36524 * b + 1461 * c + 1460"
    by (rule int_mod_pos_eq [where q = q]) (use assms c in simp_all)
  have 3: "(36524 * b + 1461 * c + 1460) div 36524 = b"
    by (rule int_div_pos_eq [where r = "1461 * c + 1460"]) (use assms c in simp_all)
  have 4: "(36524 * b + 1461 * c + 1460) mod 36524 = 1461 * c + 1460"
    by (rule int_mod_pos_eq [where q = b]) (use assms c in simp_all)
  have 5: "(1461 * c + 1460) div 1461 = c"
    by (rule int_div_pos_eq [where r = 1460]) (use assms c in simp_all)
  have 6: "(1461 * c + 1460) mod 1461 = 1460"
    by (rule int_mod_pos_eq [where q = c]) (use assms c in simp_all)
  have 7: "(1460 :: int) div 365 = 4" by simp
  show ?thesis
    unfolding ord2ymd_def n Let_def 1 2 3 4 5 6 7 by simp
qed

lemma doy_bounds:
  assumes "1 \<le> m" "m \<le> 12" "1 \<le> d" "d \<le> days_in_month y m"
  shows "0 \<le> days_before_month y m + d - 1"
    and "days_before_month y m + d - 1 \<le> (if is_leap y then 365 else 364)"
    and "days_before_month y m + d - 1 = 365 \<Longrightarrow> m = 12 \<and> d = 31"
  using assms(1,2)
  by (cases rule: month_cases;
      use assms(3,4) in \<open>simp add: days_before_month_def days_in_month_def split: if_splits\<close>)+

lemma ord2ymd_ymd2ord:
  assumes "1 \<le> m" "m \<le> 12" "1 \<le> d" "d \<le> days_in_month y m"
  shows "ord2ymd (ymd2ord y m d) = (y, m, d)"
proof -
  obtain q b c e :: int where dec: "y - 1 = 400 * q + 100 * b + 4 * c + e"
    "0 \<le> b" "b \<le> 3" "0 \<le> c" "c \<le> 24" "0 \<le> e" "e \<le> 3"
    by (rule year_decomp)
  note dby = days_before_year_decomp [OF dec]
  note leap = is_leap_decomp [OF dec]
  define doy where "doy = days_before_month y m + d - 1"
  note bounds = doy_bounds [OF assms, folded doy_def]
  have ord: "ymd2ord y m d = 146097 * q + 36524 * b + 1461 * c + 365 * e + doy + 1"
    by (simp add: ymd2ord_def dby doy_def)
  have yy: "400 * q + 100 * b + 4 * c + e + 1 = y" using dec(1) by simp
  show ?thesis
  proof (cases "doy = 365")
    case True
    from bounds(3) [OF True] have md: "m = 12" "d = 31" by simp_all
    from bounds(2) True have "is_leap y" by (simp split: if_splits)
    with leap have e: "e = 3" and cb: "c \<noteq> 24 \<or> b = 3" by simp_all
    from ord2ymd_last_day [OF dec(2-5) cb, of q] have "ord2ymd (ymd2ord y m d) = (y, 12, 31)"
      using yy by (simp add: ord e True)
    with md show ?thesis by simp
  next
    case False
    with bounds(2) have le: "doy \<le> 364" by (simp split: if_splits)
    have md: "month_day (is_leap y) doy = (m, d)"
      unfolding doy_def days_before_month_def
      using month_day_correct [OF assms(1-3), of "is_leap y"] assms(4)
      by (simp add: days_in_month_def)
    note n = ord2ymd_normal [OF dec(2-7) bounds(1) le, of q, unfolded leap [symmetric] md yy]
    show ?thesis
      unfolding ord n by simp
  qed
qed

section \<open>Rounding to floats\<close>

text \<open>
  An integer below \<open>2 ^ 53\<close> in absolute value is a float, and the rounding of a
  rational below \<open>2 ^ 1023\<close> does not overflow.
\<close>

lemma round_half_even_of_int: "round_half_even (of_int k) = k"
  by (simp add: round_half_even_def)

lemma trunc_of_int: "trunc (of_int k) = k"
  by (simp add: trunc_def)

lemma pow2_nonneg: "0 \<le> e \<Longrightarrow> pow2 e = 2 ^ nat e"
  by (simp add: pow2_def)

lemma pow2_pos: "0 < pow2 e"
  by (simp add: pow2_def)

lemma pow2_mono: "a \<le> b \<Longrightarrow> pow2 a \<le> pow2 b"
proof -
  assume ab: "a \<le> b"
  have "pow2 a \<le> pow2 b"
  proof (cases "0 \<le> a")
    case True
    with ab show ?thesis by (simp add: pow2_def power_increasing nat_mono)
  next
    case a: False
    show ?thesis
    proof (cases "0 \<le> b")
      case True
      have "pow2 a \<le> 1" using a by (simp add: pow2_def)
      moreover have "1 \<le> pow2 b" using True by (simp add: pow2_def)
      ultimately show ?thesis by simp
    next
      case False
      with a ab have "nat (- b) \<le> nat (- a)" by simp
      then have "(2::rat) ^ nat (- b) \<le> 2 ^ nat (- a)" by (simp add: power_increasing)
      with a False show ?thesis by (simp add: pow2_def frac_le)
    qed
  qed
  then show ?thesis .
qed

lemma bit_length_bounds:
  "0 < n \<Longrightarrow> 2 ^ (bit_length n - 1) \<le> n \<and> n < 2 ^ bit_length n"
proof (induction n rule: bit_length.induct)
  case (1 n)
  show ?case
  proof (cases "n div 2 = 0")
    case True
    with 1(2) have "n = 1" by presburger
    then show ?thesis by (simp add: bit_length.simps)
  next
    case False
    with 1(2) have p: "0 < n div 2" by presburger
    from 1(2) have "\<not> n \<le> 0" by simp
    from 1(1) [OF this p] have ih: "2 ^ (bit_length (n div 2) - 1) \<le> n div 2"
      "n div 2 < 2 ^ bit_length (n div 2)" by simp_all
    have b: "bit_length n = Suc (bit_length (n div 2))"
      using 1(2) by (subst bit_length.simps) simp
    have pos: "0 < bit_length (n div 2)"
      using p by (subst bit_length.simps) simp
    then obtain j where j: "bit_length (n div 2) = Suc j" by (cases "bit_length (n div 2)") simp_all
    have "2 * (n div 2) \<le> n" "n < 2 * (n div 2) + 2" by presburger+
    with ih show ?thesis by (simp add: b j)
  qed
qed

lemma bit_length_pos: "0 < n \<Longrightarrow> 0 < bit_length n"
  by (subst bit_length.simps) simp

lemma exponent2_lower:
  assumes "0 < x"
  shows "pow2 (exponent2 x) \<le> x"
proof (cases "1 \<le> x")
  case True
  then have p: "0 < \<lfloor>x\<rfloor>" by simp
  from bit_length_bounds [OF p] have "2 ^ (bit_length \<lfloor>x\<rfloor> - 1) \<le> \<lfloor>x\<rfloor>" by simp
  then have "(of_int (2 ^ (bit_length \<lfloor>x\<rfloor> - 1)) :: rat) \<le> of_int \<lfloor>x\<rfloor>"
    by (simp only: of_int_le_iff)
  also have "\<dots> \<le> x" by simp
  finally have "(2::rat) ^ (bit_length \<lfloor>x\<rfloor> - 1) \<le> x" by simp
  moreover have "0 < bit_length \<lfloor>x\<rfloor>" using p by (rule bit_length_pos)
  ultimately show ?thesis
    using True by (simp add: exponent2_def pow2_def nat_diff_distrib)
next
  case False
  with assms have x: "0 < x" "x < 1" by simp_all
  define c where "c = \<lceil>1 / x\<rceil>"
  have "1 < 1 / x" using x by simp
  then have c2: "2 \<le> c" unfolding c_def by linarith
  then have p: "0 < c - 1" by simp
  define k where "k = bit_length (c - 1)"
  from bit_length_bounds [OF p] have "c - 1 < 2 ^ k" by (simp add: k_def)
  then have "c \<le> 2 ^ k" by simp
  then have "(of_int c :: rat) \<le> of_int (2 ^ k)" by (simp only: of_int_le_iff)
  then have ck: "(of_int c :: rat) \<le> 2 ^ k" by simp
  have "1 / x \<le> of_int c" unfolding c_def by simp
  from this ck have "1 / x \<le> 2 ^ k" by (rule order_trans)
  then have "1 / 2 ^ k \<le> x"
    using x(1) by (simp add: field_simps)
  moreover have "0 < k" unfolding k_def using p by (rule bit_length_pos)
  ultimately show ?thesis
    using False by (simp add: exponent2_def pow2_def k_def c_def)
qed

lemma exponent2_int:
  assumes "1 \<le> n" "n < 2 ^ 53"
  shows "0 \<le> exponent2 (of_int n) \<and> exponent2 (of_int n) \<le> 52"
proof -
  have p: "0 < n" using assms by simp
  from bit_length_bounds [OF p] have "2 ^ (bit_length n - 1) \<le> n" by simp
  with assms(2) have "(2::int) ^ (bit_length n - 1) < 2 ^ 53" by simp
  then have "bit_length n - 1 < 53" by (simp only: power_strict_increasing_iff)
  moreover have "0 < bit_length n" using p by (rule bit_length_pos)
  ultimately show ?thesis using assms by (simp add: exponent2_def)
qed

lemma round_double_nat:
  assumes "1 \<le> n" "n < 2 ^ 53"
  shows "round_double (of_int n) = of_int n" "round_double (- of_int n) = - of_int n"
proof -
  define e where "e = exponent2 (of_int n)"
  from exponent2_int [OF assms] have e: "0 \<le> e" "e \<le> 52" by (simp_all add: e_def)
  define j where "j = nat (52 - e)"
  have u: "pow2 (e - 52) = 1 / 2 ^ j"
    using e by (simp add: pow2_def j_def) 
  have q: "(of_int n :: rat) / (1 / 2 ^ j) = of_int (n * 2 ^ j)" by simp
  have q': "(- of_int n :: rat) / (1 / 2 ^ j) = of_int (- n * 2 ^ j)" by simp
  have m: "max e (- 1022) = e" using e by simp
  have a: "\<bar>of_int n :: rat\<bar> = of_int n" "\<bar>- of_int n :: rat\<bar> = of_int n" using assms by simp_all
  have nz: "(of_int n :: rat) \<noteq> 0" using assms by simp
  show "round_double (of_int n) = of_int n"
    unfolding round_double_def Let_def a e_def [symmetric] m u q round_half_even_of_int
    using nz by simp
  show "round_double (- of_int n) = - of_int n"
    unfolding round_double_def Let_def a e_def [symmetric] m u q' round_half_even_of_int
    using nz by simp
qed

lemma round_double_int:
  assumes "\<bar>n\<bar> < 2 ^ 53"
  shows "round_double (of_int n) = of_int n"
proof -
  consider "n = 0" | "1 \<le> n" | "1 \<le> - n" by linarith
  then show ?thesis
  proof cases
    case 1
    then show ?thesis by (simp add: round_double_def)
  next
    case 2
    with assms show ?thesis by (simp add: round_double_nat)
  next
    case 3
    with assms have "- n < 2 ^ 53" by simp
    from round_double_nat(2) [OF 3 this] show ?thesis by simp
  qed
qed

lemma float_of_int_small:
  assumes "\<bar>n\<bar> < 2 ^ 53"
  shows "float_of_int n = Inr (of_int n)"
proof -
  have "\<bar>of_int n :: rat\<bar> < 2 ^ 53"
    using assms by (metis of_int_abs of_int_less_iff of_int_numeral of_int_power)
  also have "\<dots> < 2 ^ 1024" by simp
  finally have "\<not> 2 ^ 1024 \<le> \<bar>of_int n :: rat\<bar>" by simp
  then show ?thesis
    by (simp add: float_of_int_def to_double_def round_double_int [OF assms])
qed

lemma round_half_even_abs: "\<bar>of_int (round_half_even y) :: rat\<bar> \<le> \<bar>y\<bar> + 1"
proof -
  have "of_int \<lfloor>y\<rfloor> \<le> y" "y < of_int \<lfloor>y\<rfloor> + 1" by linarith+
  then show ?thesis
    unfolding round_half_even_def Let_def by (simp add: abs_if) linarith
qed

lemma round_double_bound:
  assumes "\<bar>x\<bar> < 2 ^ 1023"
  shows "\<bar>round_double x\<bar> < 2 ^ 1024"
proof (cases "x = 0")
  case True
  then show ?thesis by (simp add: round_double_def)
next
  case False
  define e where "e = max (exponent2 \<bar>x\<bar>) (- 1022)"
  define u where "u = pow2 (e - 52)"
  have up: "0 < u" by (simp add: u_def pow2_pos)
  have r: "round_double x = of_int (round_half_even (x / u)) * u"
    using False by (simp add: round_double_def Let_def e_def u_def)
  have "\<bar>round_double x\<bar> = \<bar>of_int (round_half_even (x / u)) :: rat\<bar> * u"
    unfolding r using up by (simp add: abs_mult)
  also have "\<dots> \<le> (\<bar>x / u\<bar> + 1) * u"
    using round_half_even_abs [of "x / u"] up by (simp add: mult_right_mono)
  also have "\<dots> = \<bar>x\<bar> + u"
    using up by (simp add: field_simps abs_if)
  finally have b: "\<bar>round_double x\<bar> \<le> \<bar>x\<bar> + u" .
  have "u \<le> max \<bar>x\<bar> 1"
  proof (cases "exponent2 \<bar>x\<bar> \<le> - 1022")
    case True
    then have "e = - 1022" by (simp add: e_def)
    then have "u \<le> 1" by (simp add: u_def pow2_def)
    then show ?thesis by simp
  next
    case False
    then have "e = exponent2 \<bar>x\<bar>" by (simp add: e_def)
    then have "u \<le> pow2 (exponent2 \<bar>x\<bar>)" unfolding u_def by (simp add: pow2_mono)
    also have "\<dots> \<le> \<bar>x\<bar>" using \<open>x \<noteq> 0\<close> by (simp add: exponent2_lower)
    finally show ?thesis by simp
  qed
  moreover have "max \<bar>x\<bar> 1 < 2 ^ 1023" using assms by simp
  ultimately have "\<bar>x\<bar> + u < 2 ^ 1023 + 2 ^ 1023" using assms by linarith
  with b show ?thesis by simp
qed

lemma truediv_finite:
  assumes "b \<noteq> 0" and "\<bar>a\<bar> < 2 ^ 1023"
  shows "truediv a b = Inr (round_double (of_int a / of_int b))"
proof -
  have "1 \<le> \<bar>b\<bar>" using assms(1) by simp
  then have "(1::rat) \<le> of_int \<bar>b\<bar>" by (simp only: of_int_1_le_iff)
  then have b1: "1 \<le> \<bar>of_int b :: rat\<bar>" by simp
  have "\<bar>of_int a :: rat\<bar> * 1 \<le> \<bar>of_int a\<bar> * \<bar>of_int b\<bar>"
    by (rule mult_left_mono [OF b1]) simp
  then have "\<bar>of_int a / of_int b :: rat\<bar> \<le> \<bar>of_int a\<bar>"
    using b1 by (simp add: abs_divide field_simps)
  also have "\<dots> < 2 ^ 1023"
    using assms(2) by (metis of_int_abs of_int_less_iff of_int_numeral of_int_power)
  finally have "\<bar>round_double (of_int a / of_int b)\<bar> < 2 ^ 1024"
    by (rule round_double_bound)
  then show ?thesis
    using assms(1) by (simp add: truediv_def to_double_def)
qed

lemma to_double_finite: "\<bar>x\<bar> < 2 ^ 1023 \<Longrightarrow> to_double x = Finite (round_double x)"
  using round_double_bound [of x] by (simp add: to_double_def)

section \<open>Reading lines\<close>

lemma process_line_header: "\<not> in_data st \<Longrightarrow> process_line z st raw = header_line z st (strip raw)"
  by (simp add: process_line_def)

lemma process_line_data: "in_data st \<Longrightarrow> process_line z st raw = data_line z st (strip raw)"
  by (simp add: process_line_def)

lemma read_lines_append:
  "read_lines z st (xs @ ys) = ebind (read_lines z st xs) (\<lambda>st'. read_lines z st' ys)"
proof (induction xs arbitrary: st)
  case Nil
  then show ?case by simp
next
  case (Cons x xs)
  show ?case
    by (cases "process_line z st x") (simp_all add: Cons.IH)
qed

lemma read_lines_error:
  "read_lines z st pre = Inr st' \<Longrightarrow> process_line z st' raw = Inl e \<Longrightarrow>
   read_lines z st (pre @ raw # later) = Inl e"
  by (simp add: read_lines_append)

lemma merge_files_append:
  "merge_files z outp (xs @ ys) = ebind (merge_files z outp xs) (\<lambda>o'. merge_files z o' ys)"
proof (induction xs arbitrary: outp)
  case Nil
  then show ?case by simp
next
  case (Cons x xs)
  obtain path content where x: "x = (path, content)" by (cases x)
  show ?case
    by (cases "read_data_file z content") (simp_all add: x Cons.IH)
qed

lemma merge_files_error:
  "merge_files z outp before = Inr outp' \<Longrightarrow> \<not> contains ''driftadj'' path \<Longrightarrow>
   read_data_file z content = Inl e \<Longrightarrow>
   merge_files z outp (before @ (path, content) # after) = Inl e"
  by (simp add: merge_files_append)

lemma run_fatal:
  assumes "read_lines z init_state pre = Inr st" and "process_line z st raw = Inl e"
    and "merge_files z [] before = Inr outp" and "\<not> contains ''driftadj'' path"
  shows "run z (before @ (path, Some (pre @ raw # later)) # after) = Inl e"
proof -
  have "read_data_file z (Some (pre @ raw # later)) = Inl e"
    by (simp add: read_data_file_def read_lines_error [OF assms(1,2)])
  from merge_files_error [OF assms(3,4) this] show ?thesis
    by (simp add: run_def)
qed

lemma match_prefix_Some: "match_prefix p s = Some r \<longleftrightarrow> s = p @ r"
  by (auto simp: match_prefix_def) (metis append_take_drop_id)

lemma match_drift_only:
  assumes "match_drift l = Some g"
  shows "match_header l = None \<and> match_programmed l = None \<and> match_end l = None"
proof -
  from assms obtain r where "l = ''Drift (secs): '' @ r"
    by (auto simp: match_drift_def match_prefix_Some split: option.splits)
  then show ?thesis
    by (simp add: match_header_def match_programmed_def match_end_def match_prefix_def)
qed

lemma header_line_drift:
  assumes "match_drift l = Some g"
  shows "header_line z st l =
     (case py_int g of
        None \<Rightarrow> Inl ValueError
      | Some d \<Rightarrow>
          ebind (truediv d (endt st - start st)) (\<lambda>q.
            Inr (st\<lparr>drift := d, dps := PFloat (Finite q)\<rparr>)))"
  using match_drift_only [OF assms] by (simp add: header_line_def assms)

lemma header_line_names:
  assumes "match_header l = Some label"
  shows "header_line z st l =
     (case map_of fields label of
        None \<Rightarrow> Inl (KeyError label)
      | Some f \<Rightarrow> Inr (st\<lparr>field := Some (if f = ''duration'' then ''wetdry'' else f), in_data := True\<rparr>))"
  by (simp add: header_line_def assms)

lemma to_timeval_PInt: "in_time_t i \<Longrightarrow> to_timeval (PInt i) = Inr (i, 0)"
  by (simp add: to_timeval_def)

lemma to_timeval_range: "to_timeval x = Inr tv \<Longrightarrow> in_time_t (fst tv)"
  by (auto simp: to_timeval_def Let_def split: pynum.splits pyfloat.splits if_splits)

text \<open>What is below a second does not reach the formatted time.\<close>

lemma fromtimestamp_seconds:
  assumes "to_timeval x = Inr (secs, us)"
  shows "fromtimestamp z x = fromtimestamp z (PInt secs)"
proof -
  from to_timeval_range [OF assms] have "in_time_t secs" by simp
  then have a: "to_timeval (PInt secs) = Inr (secs, 0)" by (rule to_timeval_PInt)
  show ?thesis
    unfolding fromtimestamp_def assms a ebind_Inr fst_conv by (rule refl)
qed

lemma time_to_string_seconds:
  "to_timeval x = Inr (secs, us) \<Longrightarrow> time_to_string z x = time_to_string z (PInt secs)"
  unfolding time_to_string_def by (simp add: fromtimestamp_seconds)

lemma time_to_string_timeval:
  assumes "time_to_string z x = Inr a"
  shows "\<exists>secs us. to_timeval x = Inr (secs, us)"
proof (cases "to_timeval x")
  case (Inl e)
  with assms show ?thesis by (simp add: time_to_string_def fromtimestamp_def)
next
  case (Inr tv)
  then show ?thesis by (cases tv) simp
qed

lemma data_line_skip:
  "index (split_on (CHR 0x09) l) 0 = Inr row0 \<Longrightarrow> row0 = [] \<or> parse_time z row0 < 1 \<Longrightarrow>
   data_line z st l = Inr st"
  by (auto simp: data_line_def Let_def)

lemma data_line_Inr:
  assumes "index (split_on (CHR 0x09) l) 0 = Inr row0" and "row0 \<noteq> []"
    and "1 \<le> parse_time z row0" and "data_line z st l = Inr st'"
  shows "\<exists>adjtime atime r.
           adjusted_time (dps st) (parse_time z row0) (start st) = Inr adjtime \<and>
           time_to_string z adjtime = Inr atime \<and>
           st' = st\<lparr>data := AList.update atime r (data st)\<rparr>"
  using assms by (auto simp: data_line_def Let_def ebind_Inr_iff)

lemma header_line_programmed:
  "match_header l = None \<Longrightarrow> match_programmed l = Some g \<Longrightarrow>
   header_line z st l = Inr (st\<lparr>start := parse_time z g\<rparr>)"
  by (simp add: header_line_def)

lemma header_line_end:
  "match_header l = None \<Longrightarrow> match_programmed l = None \<Longrightarrow> match_end l = Some g \<Longrightarrow>
   header_line z st l = Inr (st\<lparr>endt := parse_time z g\<rparr>)"
  by (simp add: header_line_def)

lemma header_line_other:
  "match_header l = None \<Longrightarrow> match_programmed l = None \<Longrightarrow> match_end l = None \<Longrightarrow>
   match_drift l = None \<Longrightarrow> header_line z st l = Inr st"
  by (simp add: header_line_def)

lemma ex_programmed_match:
  "match_header (strip ex_programmed) = None"
  "match_programmed (strip ex_programmed) = Some ''01/01/2022 00:00:00''"
  by code_simp+

lemma ex_end_match:
  "match_header (strip ex_end) = None"
  "match_programmed (strip ex_end) = None"
  "match_end (strip ex_end) = Some ''01/01/2022 00:00:04''"
  by code_simp+

lemma ex_end_same_match:
  "match_header (strip ex_end_same) = None"
  "match_programmed (strip ex_end_same) = None"
  "match_end (strip ex_end_same) = Some ''01/01/2022 00:00:00''"
  by code_simp+

lemma ex_drift_match:
  "match_drift (strip ex_drift) = Some ''3''" "py_int ''3'' = Some 3"
  by code_simp+

lemma ex_names_match:
  "match_header (strip ex_names) = Some ''T('C)''"
  "match_header (strip ex_names_unknown) = Some ''humidity''"
  by code_simp+

lemma parse_time_eval:
  "strptime s = Some tm \<Longrightarrow> mktime z tm = Some tt \<Longrightarrow> \<bar>tt\<bar> < 2 ^ 53 \<Longrightarrow> parse_time z s = tt"
  by (simp add: parse_time_def float_of_int_small trunc_of_int)

lemma ex_strptime:
  "strptime ''01/01/2022 00:00:00'' =
     Some \<lparr>year = 2022, month = 1, day = 1, hour = 0, minute = 0, second = 0\<rparr>"
  "strptime ''01/01/2022 00:00:04'' =
     Some \<lparr>year = 2022, month = 1, day = 1, hour = 0, minute = 0, second = 4\<rparr>"
  "strptime ''01/01/2022 00:00:01'' =
     Some \<lparr>year = 2022, month = 1, day = 1, hour = 0, minute = 0, second = 1\<rparr>"
  "strptime ''01/01/2022 00:00:03'' =
     Some \<lparr>year = 2022, month = 1, day = 1, hour = 0, minute = 0, second = 3\<rparr>"
  "strptime ''01/01/2022 00:00:05'' =
     Some \<lparr>year = 2022, month = 1, day = 1, hour = 0, minute = 0, second = 5\<rparr>"
  "strptime ''n/a'' = None"
  by code_simp+

lemma ex_mktime:
  "mktime utc \<lparr>year = 2022, month = 1, day = 1, hour = 0, minute = 0, second = 0\<rparr> = Some 1640995200"
  "mktime utc \<lparr>year = 2022, month = 1, day = 1, hour = 0, minute = 0, second = 4\<rparr> = Some 1640995204"
  "mktime utc \<lparr>year = 2022, month = 1, day = 1, hour = 0, minute = 0, second = 1\<rparr> = Some 1640995201"
  "mktime utc \<lparr>year = 2022, month = 1, day = 1, hour = 0, minute = 0, second = 3\<rparr> = Some 1640995203"
  "mktime utc \<lparr>year = 2022, month = 1, day = 1, hour = 0, minute = 0, second = 5\<rparr> = Some 1640995205"
  by code_simp+

lemma ex_parse:
  "parse_time utc ''01/01/2022 00:00:00'' = 1640995200"
  "parse_time utc ''01/01/2022 00:00:04'' = 1640995204"
  "parse_time utc ''01/01/2022 00:00:01'' = 1640995201"
  "parse_time utc ''01/01/2022 00:00:03'' = 1640995203"
  "parse_time utc ''n/a'' = 0"
  "parse_time utc ''01/01/2022 00:00:05'' = 1640995205"
proof -
  show "parse_time utc ''01/01/2022 00:00:00'' = 1640995200"
    by (rule parse_time_eval [OF ex_strptime(1) ex_mktime(1)]) simp
  show "parse_time utc ''01/01/2022 00:00:04'' = 1640995204"
    by (rule parse_time_eval [OF ex_strptime(2) ex_mktime(2)]) simp
  show "parse_time utc ''01/01/2022 00:00:01'' = 1640995201"
    by (rule parse_time_eval [OF ex_strptime(3) ex_mktime(3)]) simp
  show "parse_time utc ''01/01/2022 00:00:03'' = 1640995203"
    by (rule parse_time_eval [OF ex_strptime(4) ex_mktime(4)]) simp
  show "parse_time utc ''01/01/2022 00:00:05'' = 1640995205"
    by (rule parse_time_eval [OF ex_strptime(5) ex_mktime(5)]) simp
  show "parse_time utc ''n/a'' = 0"
    by (simp add: parse_time_def ex_strptime(6))
qed

lemma ex_window:
  "read_lines utc init_state [ex_programmed, ex_end] = Inr ex_state_window"
  by (simp add: process_line_header header_line_programmed header_line_end
      ex_programmed_match ex_end_match ex_parse init_state_def ex_state_window_def)

lemma ex_same:
  "read_lines utc init_state [ex_programmed, ex_end_same] = Inr ex_state_same"
  by (simp add: process_line_header header_line_programmed header_line_end
      ex_programmed_match ex_end_same_match ex_parse init_state_def ex_state_same_def)

lemma ex_truediv: "truediv 3 4 = Inr (3 / 4)"
  by code_simp

lemma ex_window_drift:
  "process_line utc ex_state_window ex_drift = Inr ex_state_drift"
  by (simp add: process_line_header header_line_drift ex_drift_match ex_truediv
      ex_state_window_def ex_state_drift_def)

lemma ex_drift_names:
  "process_line utc ex_state_drift ex_names = Inr ex_state_data"
  by (simp add: process_line_header header_line_names ex_names_match fields_def
      ex_state_drift_def ex_state_data_def)

lemma data_line_eval:
  assumes "split_on (CHR 0x09) l = row" and "index row 0 = Inr row0" and "row0 \<noteq> []"
    and "parse_time z row0 = time" and "1 \<le> time"
    and "adjusted_time (dps st) time (start st) = Inr adjtime"
    and "time_to_string z adjtime = Inr atime"
    and "time_to_string z (PInt time) = Inr t1"
    and "time_to_string z (minus_offset adjtime) = Inr t2"
    and "store_fields (field st) row
           ((case map_of (data st) atime of None \<Rightarrow> Map.empty | Some r \<Rightarrow> r)
              (''time'' \<mapsto> PyStr t1, ''localtime'' \<mapsto> PyStr t2)) = Inr r"
  shows "data_line z st l = Inr (st\<lparr>data := AList.update atime r (data st)\<rparr>)"
  using assms by (simp add: data_line_def Let_def)

lemma store_fields_single:
  "fld \<noteq> ''wetdry'' \<Longrightarrow> fld \<noteq> ''wet_temp_min'' \<Longrightarrow> index row 1 = Inr a \<Longrightarrow>
   store_fields (Some fld) row r = Inr (r(fld \<mapsto> PyStr a))"
  by (simp add: store_fields_def)

lemma ex_row1_split:
  "split_on (CHR 0x09) (strip ex_row1) = [''01/01/2022 00:00:01'', ''20.0'']"
  by code_simp

lemma adjusted_time_eval:
  assumes "\<bar>time - st\<bar> < 2 ^ 53" and "\<bar>time\<bar> < 2 ^ 53"
    and "\<bar>x * of_int (time - st)\<bar> < 2 ^ 1023" and "round_double (x * of_int (time - st)) = p"
    and "\<bar>of_int time + p\<bar> < 2 ^ 1023" and "round_double (of_int time + p) = r"
  shows "adjusted_time (PFloat (Finite x)) time st = Inr (PFloat (Finite r))"
proof -
  note 1 = float_of_int_small [OF assms(1)] and 2 = float_of_int_small [OF assms(2)]
  have 3: "to_double (x * of_int (time - st)) = Finite p"
    by (simp only: to_double_finite [OF assms(3)] assms(4))
  have 4: "to_double (of_int time + p) = Finite r"
    by (simp only: to_double_finite [OF assms(5)] assms(6))
  show ?thesis
    by (simp only: adjusted_time_def pynum.case 1 2 ebind_Inr fmul.simps fadd.simps 3 4)
qed

lemma minus_offset_eval:
  assumes "\<bar>x - 14400\<bar> < 2 ^ 1023" and "round_double (x - 14400) = r"
  shows "minus_offset (PFloat (Finite x)) = PFloat (Finite r)"
  using assms by (simp add: minus_offset_def fsub_def timezone_offset_def to_double_finite)

lemma ex_round:
  "round_double (3 / 4) = 3 / 4" "round_double (6563980807 / 4) = 6563980807 / 4"
  "round_double (6563923207 / 4) = 6563923207 / 4"
  "round_double (9 / 4) = 9 / 4" "round_double (6563980821 / 4) = 6563980821 / 4"
  "round_double (6563923221 / 4) = 6563923221 / 4"
  by code_simp+

lemma ex_row1_times:
  "adjusted_time (PFloat (Finite (3 / 4))) 1640995201 1640995200 = Inr (PFloat (Finite (6563980807 / 4)))"
  "time_to_string utc (PFloat (Finite (6563980807 / 4))) = Inr ''2022-01-01 00:00:01''"
  "time_to_string utc (PInt 1640995201) = Inr ''2022-01-01 00:00:01''"
  "minus_offset (PFloat (Finite (6563980807 / 4))) = PFloat (Finite (6563923207 / 4))"
  "time_to_string utc (PFloat (Finite (6563923207 / 4))) = Inr ''2021-12-31 20:00:01''"
proof -
  show "adjusted_time (PFloat (Finite (3 / 4))) 1640995201 1640995200 = Inr (PFloat (Finite (6563980807 / 4)))"
    by (rule adjusted_time_eval [where p = "3 / 4"]) (simp_all add: ex_round)
  show "minus_offset (PFloat (Finite (6563980807 / 4))) = PFloat (Finite (6563923207 / 4))"
    by (rule minus_offset_eval) (simp_all add: ex_round)
  show "time_to_string utc (PFloat (Finite (6563980807 / 4))) = Inr ''2022-01-01 00:00:01''"
    by code_simp
  show "time_to_string utc (PInt 1640995201) = Inr ''2022-01-01 00:00:01''"
    by code_simp
  show "time_to_string utc (PFloat (Finite (6563923207 / 4))) = Inr ''2021-12-31 20:00:01''"
    by code_simp
qed

lemma ex_data_row1: "process_line utc ex_state_data ex_row1 = Inr ex_state_row1"
proof -
  have "data_line utc ex_state_data (strip ex_row1) =
      Inr (ex_state_data\<lparr>data := AList.update ''2022-01-01 00:00:01''
         [''time'' \<mapsto> PyStr ''2022-01-01 00:00:01'', ''localtime'' \<mapsto> PyStr ''2021-12-31 20:00:01'',
          ''temp'' \<mapsto> PyStr ''20.0''] (data ex_state_data)\<rparr>)"
  proof (rule data_line_eval)
    show "split_on (CHR 0x09) (strip ex_row1) = [''01/01/2022 00:00:01'', ''20.0'']"
      by (rule ex_row1_split)
    show "index [''01/01/2022 00:00:01'', ''20.0''] 0 = Inr ''01/01/2022 00:00:01''"
      by (simp add: index_def)
    show "''01/01/2022 00:00:01'' \<noteq> []" by simp
    show "parse_time utc ''01/01/2022 00:00:01'' = 1640995201" by (rule ex_parse)
    show "(1::int) \<le> 1640995201" by simp
    show "adjusted_time (dps ex_state_data) 1640995201 (start ex_state_data)
            = Inr (PFloat (Finite (6563980807 / 4)))"
      by (simp add: ex_state_data_def ex_row1_times)
    show "time_to_string utc (PFloat (Finite (6563980807 / 4))) = Inr ''2022-01-01 00:00:01''"
      by (rule ex_row1_times)
    show "time_to_string utc (PInt 1640995201) = Inr ''2022-01-01 00:00:01''"
      by (rule ex_row1_times)
    show "time_to_string utc (minus_offset (PFloat (Finite (6563980807 / 4))))
            = Inr ''2021-12-31 20:00:01''"
      by (simp add: ex_row1_times)
    show "store_fields (field ex_state_data) [''01/01/2022 00:00:01'', ''20.0'']
           ((case map_of (data ex_state_data) ''2022-01-01 00:00:01'' of None \<Rightarrow> Map.empty | Some r \<Rightarrow> r)
              (''time'' \<mapsto> PyStr ''2022-01-01 00:00:01'', ''localtime'' \<mapsto> PyStr ''2021-12-31 20:00:01''))
          = Inr [''time'' \<mapsto> PyStr ''2022-01-01 00:00:01'', ''localtime'' \<mapsto> PyStr ''2021-12-31 20:00:01'',
          ''temp'' \<mapsto> PyStr ''20.0'']"
      by (simp add: ex_state_data_def store_fields_single index_def)
  qed
  then show ?thesis
    by (simp add: process_line_data ex_state_data_def ex_state_row1_def)
qed

lemma read_lines_chain:
  "read_lines z st pre = Inr st' \<Longrightarrow> read_lines z st' rest = Inr st'' \<Longrightarrow>
   read_lines z st (pre @ rest) = Inr st''"
  by (simp add: read_lines_append)

lemma read_lines_one: "process_line z st raw = Inr st' \<Longrightarrow> read_lines z st [raw] = Inr st'"
  by simp

lemma ex_header_drift:
  "read_lines utc init_state [ex_programmed, ex_end, ex_drift] = Inr ex_state_drift"
proof -
  have "read_lines utc init_state ([ex_programmed, ex_end] @ [ex_drift]) = Inr ex_state_drift"
    by (rule read_lines_chain [OF ex_window read_lines_one [OF ex_window_drift]])
  then show ?thesis by simp
qed

lemma ex_header_data:
  "read_lines utc init_state [ex_programmed, ex_end, ex_drift, ex_names] = Inr ex_state_data"
proof -
  have "read_lines utc init_state ([ex_programmed, ex_end, ex_drift] @ [ex_names]) = Inr ex_state_data"
    by (rule read_lines_chain [OF ex_header_drift read_lines_one [OF ex_drift_names]])
  then show ?thesis by simp
qed

lemma ex_names_unknown_not_in_table:
  "''humidity'' \<notin> set [''T('C)'', ''light(lux)'', ''wets0-50'', ''wet min('C)'', ''wet/dry'', ''duration'']"
  by simp

lemma not_driftadj: "\<not> contains ''driftadj'' ''a.deg''"
  by simp

lemma ex_in_data:
  "\<not> in_data ex_state_same" "\<not> in_data ex_state_window" "\<not> in_data ex_state_drift"
  "in_data ex_state_data" "in_data ex_state_row1"
  by (simp_all add: ex_state_same_def ex_state_window_def ex_state_drift_def ex_state_data_def
      ex_state_row1_def)

lemma ex_row_bad_split:
  "index (split_on (CHR 0x09) (strip ex_row_bad)) 0 = Inr ''n/a''" "strptime ''n/a'' = None"
  by code_simp+

lemma fixed_localtime_ordinal:
  assumes "0 \<le> sod" "sod < 86400"
  shows "fixed_localtime off ((ordinal - 719163) * 86400 + sod - off) =
     (case ord2ymd ordinal of (y, m, d) \<Rightarrow>
        if - 2147483648 \<le> y - 1900 \<and> y - 1900 \<le> 2147483647
        then Some \<lparr>year = y, month = m, day = d, hour = sod div 3600,
                   minute = sod mod 3600 div 60, second = sod mod 60\<rparr>
        else None)"
proof -
  have l: "(ordinal - 719163) * 86400 + sod - off + off = 86400 * (ordinal - 719163) + sod"
    by simp
  have d: "(86400 * (ordinal - 719163) + sod) div 86400 = ordinal - 719163"
    by (rule int_div_pos_eq [where r = sod]) (use assms in simp_all)
  have m: "(86400 * (ordinal - 719163) + sod) mod 86400 = sod"
    by (rule int_mod_pos_eq [where q = "ordinal - 719163"]) (use assms in simp_all)
  show ?thesis
    unfolding fixed_localtime_def l Let_def d m by simp
qed

lemma sod_fields:
  fixes H M S :: int
  assumes "0 \<le> H" "H \<le> 23" "0 \<le> M" "M \<le> 59" "0 \<le> S" "S \<le> 59"
  shows "0 \<le> H * 3600 + M * 60 + S" "H * 3600 + M * 60 + S < 86400"
    "(H * 3600 + M * 60 + S) div 3600 = H"
    "(H * 3600 + M * 60 + S) mod 3600 div 60 = M"
    "(H * 3600 + M * 60 + S) mod 60 = S"
proof -
  show "0 \<le> H * 3600 + M * 60 + S" "H * 3600 + M * 60 + S < 86400"
    using assms by simp_all
  show "(H * 3600 + M * 60 + S) div 3600 = H"
    by (rule int_div_pos_eq [where r = "M * 60 + S"]) (use assms in simp_all)
  have "(H * 3600 + M * 60 + S) mod 3600 = M * 60 + S"
    by (rule int_mod_pos_eq [where q = H]) (use assms in simp_all)
  moreover have "(M * 60 + S) div 60 = M"
    by (rule int_div_pos_eq [where r = S]) (use assms in simp_all)
  ultimately show "(H * 3600 + M * 60 + S) mod 3600 div 60 = M" by simp
  show "(H * 3600 + M * 60 + S) mod 60 = S"
    by (rule int_mod_pos_eq [where q = "H * 60 + M"]) (use assms in simp_all)
qed

text \<open>
  In a zone of one offset \<^verbatim>\<open>localtime_r\<close> inverts \<^verbatim>\<open>mktime\<close> on the fields of a date
  of the years 1 to 9999, and the times of these dates are floats.
\<close>

lemma days_before_year_bounds:
  assumes "1 \<le> y" "y \<le> 9999"
  shows "0 \<le> days_before_year y" "days_before_year y \<le> 3669266"
proof -
  define p where "p = y - 1"
  have p: "0 \<le> p" "p \<le> 9998" using assms by (simp_all add: p_def)
  have "p div 100 \<le> p" "0 \<le> p div 4" "p div 4 \<le> p" "0 \<le> p div 400" "p div 400 \<le> p"
    "0 \<le> p div 100"
    using p by presburger+
  with p show "0 \<le> days_before_year y" "days_before_year y \<le> 3669266"
    by (simp_all add: days_before_year_def Let_def p_def [symmetric])
qed

lemma days_before_month_bounds:
  assumes "1 \<le> m" "m \<le> 12"
  shows "0 \<le> days_before_month y m \<and> days_before_month y m \<le> 335"
  using assms by (cases rule: month_cases) (simp_all add: days_before_month_def)

lemma days_in_month_le: "days_in_month y m \<le> 31"
  by (simp add: days_in_month_def)

lemma ymd2ord_bounds:
  assumes "1 \<le> y" "y \<le> 9999" "1 \<le> m" "m \<le> 12" "1 \<le> d" "d \<le> days_in_month y m"
  shows "1 \<le> ymd2ord y m d" "ymd2ord y m d \<le> 3669632"
proof -
  note a = days_before_year_bounds [OF assms(1,2)]
  from days_before_month_bounds [OF assms(3,4), of y]
  have b: "0 \<le> days_before_month y m" "days_before_month y m \<le> 335" by simp_all
  from assms(6) days_in_month_le [of y m] have c: "d \<le> 31" by simp
  show "1 \<le> ymd2ord y m d" "ymd2ord y m d \<le> 3669632"
    using a b c assms(5) by (simp_all add: ymd2ord_def)
qed

lemma fixed_mktime_bounds:
  assumes "valid_datetime dt" and "\<bar>off\<bar> \<le> 86400" and "fixed_mktime off dt = Some t"
  shows "- 62135769600 \<le> t" "t \<le> 254920694400"
proof -
  from assms(1) have v: "1 \<le> year dt" "year dt \<le> 9999" "1 \<le> month dt" "month dt \<le> 12"
    "1 \<le> day dt" "day dt \<le> days_in_month (year dt) (month dt)"
    and h: "0 \<le> hour dt" "hour dt \<le> 23" "0 \<le> minute dt" "minute dt \<le> 59"
    "0 \<le> second dt" "second dt \<le> 59"
    by (simp_all add: valid_datetime_def)
  note o = ymd2ord_bounds [OF v]
  from assms(3) have t: "t = (ymd2ord (year dt) (month dt) (day dt) - 719163) * 86400
      + hour dt * 3600 + minute dt * 60 + second dt - off"
    by (simp add: fixed_mktime_def)
  from assms(2) have f: "- 86400 \<le> off" "off \<le> 86400" by simp_all
  define n where "n = ymd2ord (year dt) (month dt) (day dt)"
  have n: "1 \<le> n" "n \<le> 3669632" using o by (simp_all add: n_def)
  have t': "t = (n - 719163) * 86400 + hour dt * 3600 + minute dt * 60 + second dt - off"
    by (simp add: t n_def)
  show "- 62135769600 \<le> t" using n h f unfolding t' by simp
  show "t \<le> 254920694400" using n h f unfolding t' by simp
qed

lemma fixed_localtime_mktime:
  assumes "valid_datetime dt" and "fixed_mktime off dt = Some t"
  shows "fixed_localtime off t = Some dt"
proof -
  from assms(1) have v: "1 \<le> month dt" "month dt \<le> 12" "1 \<le> day dt"
    "day dt \<le> days_in_month (year dt) (month dt)"
    "0 \<le> hour dt" "hour dt \<le> 23" "0 \<le> minute dt" "minute dt \<le> 59"
    "0 \<le> second dt" "second dt \<le> 59" and y: "1 \<le> year dt" "year dt \<le> 9999"
    by (simp_all add: valid_datetime_def)
  note s = sod_fields [OF v(5-10)]
  note o = ord2ymd_ymd2ord [OF v(1-4)]
  from assms(2) have e: "t = (ymd2ord (year dt) (month dt) (day dt) - 719163) * 86400
      + (hour dt * 3600 + minute dt * 60 + second dt) - off"
    by (simp add: fixed_mktime_def)
  show ?thesis
    unfolding e fixed_localtime_ordinal [OF s(1,2)] o using y by (simp add: s)
qed

text \<open>
  \<^verbatim>\<open>fromtimestamp\<close> also converts the time one day earlier. For a valid date other
  than the first of January of year 1 that day is again a date of the years 1 to 9999.
\<close>

lemma days_before_year_succ:
  "days_before_year (y + 1) = days_before_year y + (if is_leap y then 366 else 365)"
proof -
  obtain q b c e :: int where dec: "y - 1 = 400 * q + 100 * b + 4 * c + e"
    "0 \<le> b" "b \<le> 3" "0 \<le> c" "c \<le> 24" "0 \<le> e" "e \<le> 3"
    by (rule year_decomp)
  note dby = days_before_year_decomp [OF dec]
  note leap = is_leap_decomp [OF dec]
  show ?thesis
  proof (cases "e = 3")
    case False
    have "days_before_year (y + 1) = 146097 * q + 36524 * b + 1461 * c + 365 * (e + 1)"
      by (rule days_before_year_decomp) (use dec False in simp_all)
    with False show ?thesis by (simp add: dby leap)
  next
    case e: True
    show ?thesis
    proof (cases "c = 24")
      case False
      have "days_before_year (y + 1) = 146097 * q + 36524 * b + 1461 * (c + 1) + 365 * 0"
        by (rule days_before_year_decomp) (use dec e False in simp_all)
      with False e show ?thesis by (simp add: dby leap)
    next
      case c: True
      show ?thesis
      proof (cases "b = 3")
        case False
        have "days_before_year (y + 1) = 146097 * q + 36524 * (b + 1) + 1461 * 0 + 365 * 0"
          by (rule days_before_year_decomp) (use dec e c False in simp_all)
        with False e c show ?thesis by (simp add: dby leap)
      next
        case True
        have "days_before_year (y + 1) = 146097 * (q + 1) + 36524 * 0 + 1461 * 0 + 365 * 0"
          by (rule days_before_year_decomp) (use dec e c True in simp_all)
        with True e c show ?thesis by (simp add: dby leap)
      qed
    qed
  qed
qed

lemma day_before:
  assumes "1 \<le> m" "m \<le> 12" "1 \<le> d" "d \<le> days_in_month y m"
  shows "\<exists>y' m' d'. 1 \<le> m' \<and> m' \<le> 12 \<and> 1 \<le> d' \<and> d' \<le> days_in_month y' m' \<and>
           ymd2ord y' m' d' = ymd2ord y m d - 1 \<and>
           (y' = y \<or> y' = y - 1 \<and> m = 1 \<and> d = 1)"
proof (cases "1 < d")
  case True
  with assms have "1 \<le> m \<and> m \<le> 12 \<and> 1 \<le> d - 1 \<and> d - 1 \<le> days_in_month y m \<and>
           ymd2ord y m (d - 1) = ymd2ord y m d - 1"
    by (simp add: ymd2ord_def)
  then show ?thesis by blast
next
  case False
  with assms have d: "d = 1" by simp
  show ?thesis
  proof (cases "1 < m")
    case True
    from assms(1,2) have "ymd2ord y (m - 1) (days_in_month y (m - 1)) = ymd2ord y m 1 - 1"
      by (cases rule: month_cases)
         (use True in \<open>simp_all add: ymd2ord_def days_before_month_def days_in_month_def\<close>)
    moreover have "1 \<le> days_in_month y (m - 1)"
      by (simp add: days_in_month_def)
    ultimately have "1 \<le> m - 1 \<and> m - 1 \<le> 12 \<and> 1 \<le> days_in_month y (m - 1) \<and>
        days_in_month y (m - 1) \<le> days_in_month y (m - 1) \<and>
        ymd2ord y (m - 1) (days_in_month y (m - 1)) = ymd2ord y m d - 1"
      using True assms(2) d by simp
    then show ?thesis by blast
  next
    case False
    with assms have m: "m = 1" by simp
    have "days_before_year y = days_before_year (y - 1) + (if is_leap (y - 1) then 366 else 365)"
      using days_before_year_succ [of "y - 1"] by simp
    then have "ymd2ord (y - 1) 12 31 = ymd2ord y 1 1 - 1"
      by (simp add: ymd2ord_def days_before_month_def)
    then have "(1::int) \<le> 12 \<and> (12::int) \<le> 12 \<and> (1::int) \<le> 31 \<and> 31 \<le> days_in_month (y - 1) 12 \<and>
        ymd2ord (y - 1) 12 31 = ymd2ord y m d - 1 \<and> m = 1 \<and> d = 1"
      by (simp add: m d days_in_month_def)
    then show ?thesis by blast
  qed
qed

lemma strptime_valid: "strptime s = Some dt \<Longrightarrow> valid_datetime dt"
  by (auto simp: strptime_def split: list.splits prod.splits if_splits)

lemma utc_to_seconds_valid:
  "1 \<le> year tm \<Longrightarrow> year tm \<le> 9999 \<Longrightarrow>
   utc_to_seconds tm = Inr (ymd2ord (year tm) (month tm) (day tm) * 86400
      + (hour tm * 3600 + minute tm * 60 + second tm))"
  by (simp add: utc_to_seconds_def algebra_simps)

lemma fixed_probe:
  assumes "valid_datetime dt" and "\<not> (year dt = 1 \<and> month dt = 1 \<and> day dt = 1)"
    and "\<bar>off\<bar> \<le> 86400" and "fixed_mktime off dt = Some t"
  shows "local (fixed_zone off) (t - 86400) =
     Inr ((ymd2ord (year dt) (month dt) (day dt) - 1) * 86400
          + (hour dt * 3600 + minute dt * 60 + second dt))"
proof -
  from assms(1) have v: "1 \<le> month dt" "month dt \<le> 12" "1 \<le> day dt"
    "day dt \<le> days_in_month (year dt) (month dt)"
    "0 \<le> hour dt" "hour dt \<le> 23" "0 \<le> minute dt" "minute dt \<le> 59"
    "0 \<le> second dt" "second dt \<le> 59" and y: "1 \<le> year dt" "year dt \<le> 9999"
    by (simp_all add: valid_datetime_def)
  note s = sod_fields [OF v(5-10)]
  from day_before [OF v(1-4)] obtain y' m' d' where
    p: "1 \<le> m'" "m' \<le> 12" "1 \<le> d'" "d' \<le> days_in_month y' m'"
       "ymd2ord y' m' d' = ymd2ord (year dt) (month dt) (day dt) - 1"
       "y' = year dt \<or> y' = year dt - 1 \<and> month dt = 1 \<and> day dt = 1"
    by blast
  have y': "1 \<le> y'" "y' \<le> 9999"
    using p(6) y assms(2) by auto
  from assms(4) have e: "t - 86400 = (ymd2ord y' m' d' - 719163) * 86400
      + (hour dt * 3600 + minute dt * 60 + second dt) - off"
    by (simp add: fixed_mktime_def p(5))
  have l: "fixed_localtime off (t - 86400) =
      Some \<lparr>year = y', month = m', day = d', hour = hour dt, minute = minute dt,
            second = second dt\<rparr>"
    unfolding e fixed_localtime_ordinal [OF s(1,2)] ord2ymd_ymd2ord [OF p(1-4)]
    using y' by (simp add: s)
  from fixed_mktime_bounds [OF assms(1,3,4)] have r: "in_time_t (t - 86400)"
    by (simp add: in_time_t_def)
  show ?thesis
    using y' by (simp add: local_def r fixed_zone_def l utc_to_seconds_valid p(5))
qed

lemma fromtimestamp_fixed:
  assumes "valid_datetime dt" and "\<not> (year dt = 1 \<and> month dt = 1 \<and> day dt = 1)"
    and "\<bar>off\<bar> \<le> 86400" and "fixed_mktime off dt = Some t"
  shows "fromtimestamp (fixed_zone off) (PInt t) = Inr dt"
proof -
  from assms(1) have y: "1 \<le> year dt" "year dt \<le> 9999" and sec: "second dt \<le> 59"
    by (simp_all add: valid_datetime_def)
  from fixed_mktime_bounds [OF assms(1,3,4)] have r: "in_time_t t"
    by (simp add: in_time_t_def)
  have l: "localtime (fixed_zone off) t = Some dt"
    by (simp add: fixed_zone_def fixed_localtime_mktime [OF assms(1,4)])
  have m: "dt\<lparr>second := min 59 (second dt)\<rparr> = dt"
    using sec by (simp add: min_def)
  note u = utc_to_seconds_valid [OF y]
  note p = fixed_probe [OF assms]
  show ?thesis
    unfolding fromtimestamp_def to_timeval_PInt [OF r] ebind_Inr fst_conv l option.case Let_def m u p
    using assms(1) by simp
qed

lemma parse_time_fixed:
  assumes "strptime s = Some dt" and "\<bar>off\<bar> \<le> 86400"
  shows "fixed_mktime off dt = Some (parse_time (fixed_zone off) s)"
proof -
  obtain t where t: "fixed_mktime off dt = Some t" by (simp add: fixed_mktime_def)
  from fixed_mktime_bounds [OF strptime_valid [OF assms(1)] assms(2) t]
  have "\<bar>t\<bar> < 2 ^ 53" by simp
  then have "parse_time (fixed_zone off) s = t"
    by (simp add: parse_time_def assms(1) fixed_zone_def t float_of_int_small trunc_of_int)
  with t show ?thesis by simp
qed

















lemma process_line_field:
  assumes "process_line z st raw = Inr st'" and "in_data st \<longrightarrow> field st \<noteq> None"
  shows "in_data st' \<longrightarrow> field st' \<noteq> None"
proof (cases "in_data st")
  case True
  with assms(1) have d: "data_line z st (strip raw) = Inr st'"
    by (simp add: process_line_data)
  then have "field st' = field st \<and> in_data st' = in_data st"
    by (auto simp: data_line_def Let_def ebind_Inr_iff split: if_splits)
  with True assms(2) show ?thesis by simp
next
  case False
  with assms(1) have "header_line z st (strip raw) = Inr st'"
    by (simp add: process_line_header)
  with False show ?thesis
    by (auto simp: header_line_def ebind_Inr_iff split: option.splits if_splits)
qed

lemma in_data_field:
  "read_lines z st raws = Inr st' \<Longrightarrow> in_data st \<longrightarrow> field st \<noteq> None \<Longrightarrow>
   in_data st' \<longrightarrow> field st' \<noteq> None"
proof (induction raws arbitrary: st)
  case Nil
  then show ?case by simp
next
  case (Cons raw raws)
  from Cons.prems(1) obtain st1 where
    s: "process_line z st raw = Inr st1" "read_lines z st1 raws = Inr st'"
    by (auto simp: ebind_Inr_iff)
  from Cons.IH [OF s(2) process_line_field [OF s(1) Cons.prems(2)]] show ?case .
qed

text \<open>
  The sum of line 144 is rounded to a float before it is formatted. With a drift of 1
  second over 1800000 seconds, the line stamped 1799999 seconds after the start has the
  adjusted time 1642795199.9999995 (the nearest float to 1642795199.99999944), which
  the rounding to microseconds carries into the next second.
\<close>

lemma ex_carry:
  "truediv 1 1800000 = Inr (5247073869855161 / 9444732965739290427392)"
  "adjusted_time (PFloat (Finite (5247073869855161 / 9444732965739290427392))) 1642795199 1640995200
     = Inr (PFloat (Finite (3445191239270399 / 2097152)))"
  "to_timeval (PFloat (Finite (3445191239270399 / 2097152))) = Inr (1642795200, 0)"
  "time_to_string utc (PFloat (Finite (3445191239270399 / 2097152))) = Inr ''2022-01-21 20:00:00''"
  "time_to_string utc (PInt 1642795199) = Inr ''2022-01-21 19:59:59''"
proof -
  show "truediv 1 1800000 = Inr (5247073869855161 / 9444732965739290427392)"
    by code_simp
  show "adjusted_time (PFloat (Finite (5247073869855161 / 9444732965739290427392))) 1642795199 1640995200
     = Inr (PFloat (Finite (3445191239270399 / 2097152)))"
  proof (rule adjusted_time_eval [where p = "9007194250741405 / 9007199254740992"])
    show "\<bar>1642795199 - 1640995200 :: int\<bar> < 2 ^ 53" "\<bar>1642795199 :: int\<bar> < 2 ^ 53"
      by simp_all
    show "\<bar>5247073869855161 / 9444732965739290427392 * rat_of_int (1642795199 - 1640995200)\<bar>
        < 2 ^ 1023"
      by simp
    show "round_double (5247073869855161 / 9444732965739290427392 * rat_of_int (1642795199 - 1640995200))
        = 9007194250741405 / 9007199254740992"
      by code_simp
    show "\<bar>rat_of_int 1642795199 + 9007194250741405 / 9007199254740992\<bar> < 2 ^ 1023"
      by simp
    show "round_double (rat_of_int 1642795199 + 9007194250741405 / 9007199254740992)
        = 3445191239270399 / 2097152"
      by code_simp
  qed
  show "to_timeval (PFloat (Finite (3445191239270399 / 2097152))) = Inr (1642795200, 0)"
    by code_simp
  show "time_to_string utc (PFloat (Finite (3445191239270399 / 2097152))) = Inr ''2022-01-21 20:00:00''"
    by code_simp
  show "time_to_string utc (PInt 1642795199) = Inr ''2022-01-21 19:59:59''"
    by code_simp
qed

text \<open>
  In the zone with a clock change, a local time that the clock skips comes back an hour
  later, and a local time that exists comes back as it is.
\<close>

lemma ex_skipped_hour:
  "strptime ''13/03/2022 02:30:00'' =
     Some \<lparr>year = 2022, month = 3, day = 13, hour = 2, minute = 30, second = 0\<rparr>"
  "parse_time ex_dst_zone ''13/03/2022 02:30:00'' = 1647156600"
  "time_to_string ex_dst_zone (PInt 1647156600) = Inr ''2022-03-13 03:30:00''"
  "parse_time ex_dst_zone ''13/03/2022 01:30:00'' = 1647153000"
  "time_to_string ex_dst_zone (PInt 1647153000) = Inr ''2022-03-13 01:30:00''"
proof -
  show s: "strptime ''13/03/2022 02:30:00'' =
     Some \<lparr>year = 2022, month = 3, day = 13, hour = 2, minute = 30, second = 0\<rparr>"
    by code_simp
  have m: "mktime ex_dst_zone \<lparr>year = 2022, month = 3, day = 13, hour = 2, minute = 30, second = 0\<rparr>
      = Some 1647156600"
    by code_simp
  show "parse_time ex_dst_zone ''13/03/2022 02:30:00'' = 1647156600"
    by (rule parse_time_eval [OF s m]) simp
  show "time_to_string ex_dst_zone (PInt 1647156600) = Inr ''2022-03-13 03:30:00''"
    by code_simp
  have s': "strptime ''13/03/2022 01:30:00'' =
     Some \<lparr>year = 2022, month = 3, day = 13, hour = 1, minute = 30, second = 0\<rparr>"
    by code_simp
  have m': "mktime ex_dst_zone \<lparr>year = 2022, month = 3, day = 13, hour = 1, minute = 30, second = 0\<rparr>
      = Some 1647153000"
    by code_simp
  show "parse_time ex_dst_zone ''13/03/2022 01:30:00'' = 1647153000"
    by (rule parse_time_eval [OF s' m']) simp
  show "time_to_string ex_dst_zone (PInt 1647153000) = Inr ''2022-03-13 01:30:00''"
    by code_simp
qed

section \<open>The claims\<close>

text \<open>
C1. The claim: the forward fill treats wetdry and duration like the wet-temperature
  group, so that whenever the dry state is set both the wetdry and the duration field of
  the current reading are overwritten from it. The loop stores \<^verbatim>\<open>state['duration']\<close>
  (line 371) and never reads it: line 374 writes wetdry only. On the merged example
  table the reading of 04:00 has wetdry \<^verbatim>\<open>wet\<close> and duration \<^verbatim>\<open>120\<close>; after
  interpolation the reading of 03:00 has wetdry \<^verbatim>\<open>wet\<close>, carried from the state, and
  its duration is still \<^verbatim>\<open>None\<close>.
\<close>

theorem duration_not_filled:
  "field_at ex_merged ''2022-01-01 04:00:00'' ''wetdry'' = Some (PyStr ''wet'') \<and>
   field_at ex_merged ''2022-01-01 04:00:00'' ''duration'' = Some (PyStr ''120'') \<and>
   field_at ex_merged ''2022-01-01 03:00:00'' ''wetdry'' = Some PyNone \<and>
   field_at ex_merged ''2022-01-01 03:00:00'' ''duration'' = Some PyNone \<and>
   interpolated_field ex_merged ''2022-01-01 03:00:00'' ''wetdry'' = Inr (Some (PyStr ''wet'')) \<and>
   interpolated_field ex_merged ''2022-01-01 03:00:00'' ''duration'' = Inr (Some PyNone)"
proof -
  have "''duration'' \<notin> set interpolated_fields"
    by (simp add: interpolated_fields_def)
  from ex_interpolated_other [OF this, of "''2022-01-01 03:00:00''"]
  have "interpolated_field ex_merged ''2022-01-01 03:00:00'' ''duration'' = Inr (Some PyNone)"
    by (simp add: ex_eval)
  moreover have "field_at ex_merged ''2022-01-01 04:00:00'' ''duration'' = Some (PyStr ''120'')"
    "field_at ex_merged ''2022-01-01 03:00:00'' ''duration'' = Some PyNone"
    by (simp_all add: ex_eval)
  ultimately show ?thesis
    by (simp add: ex_wetdry_values ex_interpolated_wetdry)
qed

text \<open>
C2, as the code has it. The claim: a data line is keyed by the format of
  \<^verbatim>\<open>rawTime + round(dps * (rawTime - start))\<close>. Line 144 adds the correction without
  rounding it to whole seconds. For a line of the data section whose first column parses
  to a time of at least 1 and that is processed without an exception, the adjusted time
  is \<^verbatim>\<open>time + dps * (time - start)\<close> in the arithmetic of Python: the int
  \<open>time + i * (time - start)\<close> while \<open>dps\<close> is an int \<open>i\<close> (the int 0 of a file with no
  drift line), and for a float \<open>dps\<close> the float sum of \<open>time\<close> and the float product of
  \<open>dps\<close> and \<open>time - start\<close>. The reading is keyed by the format of this value, which
  shows its whole seconds after the rounding to microseconds; the key is added at the
  end of the table when it is new. In the counterexample the drift is 3 seconds over a
  window of 4 seconds and the line is stamped 1 second after the start: the correction
  is 0.75 seconds, the code keys the reading 00:00:01, the formula of the claim gives
  00:00:02.
\<close>

theorem adjusted_time_unrounded:
  assumes "in_data st" and "index (split_on (CHR 0x09) (strip raw)) 0 = Inr row0"
    and "row0 \<noteq> []" and "time = parse_time z row0" and "1 \<le> time"
    and "process_line z st raw = Inr st'"
  shows "\<exists>adjtime secs us atime.
     adjusted_time (dps st) time (start st) = Inr adjtime \<and>
     (\<forall>i. dps st = PInt i \<longrightarrow> adjtime = PInt (time + i * (time - start st))) \<and>
     (\<forall>x. dps st = PFloat x \<longrightarrow>
        (\<exists>t elapsed. float_of_int time = Inr t \<and> float_of_int (time - start st) = Inr elapsed \<and>
           adjtime = PFloat (fadd (Finite t) (fmul x (Finite elapsed))))) \<and>
     to_timeval adjtime = Inr (secs, us) \<and>
     time_to_string z adjtime = Inr atime \<and> time_to_string z (PInt secs) = Inr atime \<and>
     map fst (data st') =
       (if atime \<in> set (map fst (data st)) then map fst (data st) else map fst (data st) @ [atime])"
proof -
  from assms(1,6) have "data_line z st (strip raw) = Inr st'"
    by (simp add: process_line_data)
  from data_line_Inr [OF assms(2,3) _ this] assms(4,5) obtain adjtime atime r where
    a: "adjusted_time (dps st) time (start st) = Inr adjtime"
       "time_to_string z adjtime = Inr atime"
       "st' = st\<lparr>data := AList.update atime r (data st)\<rparr>"
    by auto
  from time_to_string_timeval [OF a(2)] obtain secs us where
    tv: "to_timeval adjtime = Inr (secs, us)" by blast
  from time_to_string_seconds [OF tv, of z] a(2) have
    s: "time_to_string z (PInt secs) = Inr atime" by simp
  have i: "adjtime = PInt (time + i * (time - start st))" if "dps st = PInt i" for i
    using a(1) that by (simp add: adjusted_time_def)
  have f: "\<exists>t elapsed. float_of_int time = Inr t \<and> float_of_int (time - start st) = Inr elapsed \<and>
           adjtime = PFloat (fadd (Finite t) (fmul x (Finite elapsed)))" if "dps st = PFloat x" for x
    using a(1) that by (auto simp: adjusted_time_def ebind_Inr_iff)
  have k: "map fst (data st') =
       (if atime \<in> set (map fst (data st)) then map fst (data st) else map fst (data st) @ [atime])"
    by (simp add: a(3) update_keys)
  from a(1,2) tv s i f k show ?thesis by blast
qed

theorem adjusted_time_unrounded_witness:
  "in_data ex_state_data \<and>
   index (split_on (CHR 0x09) (strip ex_row1)) 0 = Inr ''01/01/2022 00:00:01'' \<and>
   ''01/01/2022 00:00:01'' \<noteq> [] \<and> 1640995201 = parse_time utc ''01/01/2022 00:00:01'' \<and>
   (1::int) \<le> 1640995201 \<and> process_line utc ex_state_data ex_row1 = Inr ex_state_row1 \<and>
   dps ex_state_data = PFloat (Finite (3 / 4)) \<and> start ex_state_data = 1640995200 \<and>
   float_of_int 1640995201 = Inr 1640995201 \<and> float_of_int (1640995201 - 1640995200) = Inr 1 \<and>
   fadd (Finite 1640995201) (fmul (Finite (3 / 4)) (Finite 1)) = Finite (6563980807 / 4) \<and>
   to_timeval (PFloat (Finite (6563980807 / 4))) = Inr (1640995201, 750000) \<and>
   time_to_string utc (PFloat (Finite (6563980807 / 4))) = Inr ''2022-01-01 00:00:01'' \<and>
   time_to_string utc (PInt 1640995201) = Inr ''2022-01-01 00:00:01'' \<and>
   map fst (data ex_state_row1) = [''2022-01-01 00:00:01'']"
proof -
  have h2: "index (split_on (CHR 0x09) (strip ex_row1)) 0 = Inr ''01/01/2022 00:00:01''"
    by (simp add: ex_row1_split index_def)
  have h3: "''01/01/2022 00:00:01'' \<noteq> []" by simp
  have h4: "1640995201 = parse_time utc ''01/01/2022 00:00:01''" by (simp add: ex_parse)
  have h5: "(1::int) \<le> 1640995201" by simp
  have d: "dps ex_state_data = PFloat (Finite (3 / 4))" "start ex_state_data = 1640995200"
    by (simp_all add: ex_state_data_def)
  from adjusted_time_unrounded [OF ex_in_data(4) h2 h3 h4 h5 ex_data_row1]
  obtain adjtime secs us atime where a:
    "adjusted_time (dps ex_state_data) 1640995201 (start ex_state_data) = Inr adjtime"
    "\<forall>x. dps ex_state_data = PFloat x \<longrightarrow>
        (\<exists>t elapsed. float_of_int 1640995201 = Inr t \<and>
           float_of_int (1640995201 - start ex_state_data) = Inr elapsed \<and>
           adjtime = PFloat (fadd (Finite t) (fmul x (Finite elapsed))))"
    "to_timeval adjtime = Inr (secs, us)"
    "time_to_string utc adjtime = Inr atime" "time_to_string utc (PInt secs) = Inr atime"
    "map fst (data ex_state_row1) =
       (if atime \<in> set (map fst (data ex_state_data)) then map fst (data ex_state_data)
        else map fst (data ex_state_data) @ [atime])"
    by blast
  from a(1) have adj: "adjtime = PFloat (Finite (6563980807 / 4))"
    by (simp add: d ex_row1_times(1))
  from a(2) d obtain t elapsed where f:
    "float_of_int 1640995201 = Inr t" "float_of_int (1640995201 - 1640995200) = Inr elapsed"
    "adjtime = PFloat (fadd (Finite t) (fmul (Finite (3 / 4)) (Finite elapsed)))"
    by auto
  have fi: "float_of_int 1640995201 = Inr 1640995201" "float_of_int (1640995201 - 1640995200) = Inr 1"
    using float_of_int_small [of 1640995201] float_of_int_small [of 1] by simp_all
  from f fi have te: "t = 1640995201" "elapsed = 1" by simp_all
  from f(3) have fm: "fadd (Finite 1640995201) (fmul (Finite (3 / 4)) (Finite 1)) = Finite (6563980807 / 4)"
    unfolding adj te by simp
  have tv: "to_timeval (PFloat (Finite (6563980807 / 4))) = Inr (1640995201, 750000)"
    by code_simp
  from a(3) have su: "secs = 1640995201" unfolding adj tv by simp
  from a(6) have at: "atime = ''2022-01-01 00:00:01''"
    by (simp add: ex_state_data_def ex_state_row1_def)
  from a(4,5) have
    "time_to_string utc (PFloat (Finite (6563980807 / 4))) = Inr ''2022-01-01 00:00:01''"
    "time_to_string utc (PInt 1640995201) = Inr ''2022-01-01 00:00:01''"
    unfolding adj su at by simp_all
  with ex_in_data(4) h2 h3 h4 h5 ex_data_row1 d fi fm tv show ?thesis
    by (simp add: ex_state_row1_def)
qed

theorem adjusted_time_rounded_counterexample:
  "read_lines utc init_state [ex_programmed, ex_end, ex_drift, ex_names] = Inr ex_state_data \<and>
   start ex_state_data = 1640995200 \<and> dps ex_state_data = PFloat (Finite (3 / 4)) \<and>
   index (split_on (CHR 0x09) (strip ex_row1)) 0 = Inr ''01/01/2022 00:00:01'' \<and>
   parse_time utc ''01/01/2022 00:00:01'' = 1640995201 \<and>
   process_line utc ex_state_data ex_row1 = Inr ex_state_row1 \<and>
   map fst (data ex_state_row1) = [''2022-01-01 00:00:01''] \<and>
   adjusted_time_spec (3 / 4) 1640995201 1640995200 = 1640995202 \<and>
   time_to_string utc (PInt 1640995202) = Inr ''2022-01-01 00:00:02'' \<and>
   time_to_string utc (PInt (adjusted_time_spec (3 / 4) 1640995201 1640995200))
     \<noteq> ebind (adjusted_time (PFloat (Finite (3 / 4))) 1640995201 1640995200) (time_to_string utc)"
proof -
  note pre = ex_header_data
  have s: "adjusted_time_spec (3 / 4) 1640995201 1640995200 = 1640995202"
    by code_simp
  have t: "time_to_string utc (PInt 1640995202) = Inr ''2022-01-01 00:00:02''"
    by code_simp
  have h2: "index (split_on (CHR 0x09) (strip ex_row1)) 0 = Inr ''01/01/2022 00:00:01''"
    by (simp add: ex_row1_split index_def)
  show ?thesis
    using pre s t h2 ex_data_row1 ex_parse(3) ex_row1_times(1,2)
    by (simp add: ex_state_data_def ex_state_row1_def)
qed

text \<open>
C3, as the code has it. A merged table of five readings, \<open>k1\<close> the latest and
  \<open>k5\<close> the oldest, where only the first and the fourth define wetdry: after
  interpolation the second and the third carry the value of the first, and the fifth
  carries the value of the fourth (the state is still set when the loop reaches it).
  The claim says that the fifth stays absent; the counterexample is the merged example
  table, whose oldest reading ends with \<^verbatim>\<open>dry\<close>.
\<close>

theorem five_readings_wetdry:
  assumes "otab = merge_all datas"
    and "sorted_keys_desc otab = [k1, k2, k3, k4, k5]"
    and "field_at otab k1 ''wetdry'' = Some (PyStr a)"
    and "field_at otab k2 ''wetdry'' = Some PyNone"
    and "field_at otab k3 ''wetdry'' = Some PyNone"
    and "field_at otab k4 ''wetdry'' = Some (PyStr d)"
    and "field_at otab k5 ''wetdry'' = Some PyNone"
  shows "interpolated_field otab k1 ''wetdry'' = Inr (Some (PyStr a)) \<and>
         interpolated_field otab k2 ''wetdry'' = Inr (Some (PyStr a)) \<and>
         interpolated_field otab k3 ''wetdry'' = Inr (Some (PyStr a)) \<and>
         interpolated_field otab k4 ''wetdry'' = Inr (Some (PyStr d)) \<and>
         interpolated_field otab k5 ''wetdry'' = Inr (Some (PyStr d))"
proof -
  have "distinct (map fst otab)" "all_complete otab"
    unfolding assms(1) by (rule distinct_merge_all, rule all_complete_merge_all)
  from interpolate_fields [OF this] obtain final where
    f: "interpolate otab = Inr final"
       "map (\<lambda>k. field_at final k ''wetdry'') (sorted_keys_desc otab) =
          carry None (map (\<lambda>k. field_at otab k ''wetdry'') (sorted_keys_desc otab))"
    by blast
  from f(2) have
    "field_at final k1 ''wetdry'' = Some (PyStr a)"
    "field_at final k2 ''wetdry'' = Some (PyStr a)"
    "field_at final k3 ''wetdry'' = Some (PyStr a)"
    "field_at final k4 ''wetdry'' = Some (PyStr d)"
    "field_at final k5 ''wetdry'' = Some (PyStr d)"
    by (simp_all add: assms(2-7) Let_def)
  then show ?thesis
    by (simp add: interpolated_field_def f(1))
qed

theorem five_readings_wetdry_witness:
  "ex_merged = merge_all [ex_temp_data, ex_wetdry_data] \<and>
   sorted_keys_desc ex_merged = [''2022-01-01 04:00:00'', ''2022-01-01 03:00:00'',
     ''2022-01-01 02:00:00'', ''2022-01-01 01:00:00'', ''2022-01-01 00:00:00''] \<and>
   field_at ex_merged ''2022-01-01 04:00:00'' ''wetdry'' = Some (PyStr ''wet'') \<and>
   field_at ex_merged ''2022-01-01 03:00:00'' ''wetdry'' = Some PyNone \<and>
   field_at ex_merged ''2022-01-01 02:00:00'' ''wetdry'' = Some PyNone \<and>
   field_at ex_merged ''2022-01-01 01:00:00'' ''wetdry'' = Some (PyStr ''dry'') \<and>
   field_at ex_merged ''2022-01-01 00:00:00'' ''wetdry'' = Some PyNone \<and>
   interpolated_field ex_merged ''2022-01-01 03:00:00'' ''wetdry'' = Inr (Some (PyStr ''wet'')) \<and>
   interpolated_field ex_merged ''2022-01-01 02:00:00'' ''wetdry'' = Inr (Some (PyStr ''wet'')) \<and>
   interpolated_field ex_merged ''2022-01-01 00:00:00'' ''wetdry'' = Inr (Some (PyStr ''dry''))"
  using five_readings_wetdry [OF ex_merged_def ex_desc ex_wetdry_values]
  by (simp add: ex_merged_def [symmetric] ex_desc ex_wetdry_values)

theorem oldest_reading_counterexample:
  "sorted_keys_desc ex_merged = [''2022-01-01 04:00:00'', ''2022-01-01 03:00:00'',
     ''2022-01-01 02:00:00'', ''2022-01-01 01:00:00'', ''2022-01-01 00:00:00''] \<and>
   field_at ex_merged ''2022-01-01 04:00:00'' ''wetdry'' = Some (PyStr ''wet'') \<and>
   field_at ex_merged ''2022-01-01 03:00:00'' ''wetdry'' = Some PyNone \<and>
   field_at ex_merged ''2022-01-01 02:00:00'' ''wetdry'' = Some PyNone \<and>
   field_at ex_merged ''2022-01-01 01:00:00'' ''wetdry'' = Some (PyStr ''dry'') \<and>
   field_at ex_merged ''2022-01-01 00:00:00'' ''wetdry'' = Some PyNone \<and>
   interpolated_field ex_merged ''2022-01-01 00:00:00'' ''wetdry'' \<noteq> Inr (Some PyNone)"
  by (simp add: ex_desc ex_wetdry_values ex_interpolated_wetdry)

text \<open>
C4. Merging the table \<open>dat\<close> of a file into the output of the files before it, at a
  date \<open>k\<close> of the file and for each of the eleven output fields \<open>f\<close>: a field that
  the incoming reading has takes its value (the later file wins); a field that it lacks
  becomes \<^verbatim>\<open>None\<close> when the output has no entry for it, and keeps the value the output
  has otherwise. After any file every date of the output has all eleven fields. When
  the file sets temp at \<open>k\<close> and a later file sets light there and no temp, the merged
  reading has both.
\<close>

theorem merge_fieldwise:
  assumes "distinct (map fst dat)" and "map_of dat k = Some vals" and "f \<in> set output_fields"
  shows "length output_fields = 11 \<and> distinct output_fields \<and>
    field_at (merge_all (datas @ [dat])) k f =
      (case vals f of
         Some v \<Rightarrow> Some v
       | None \<Rightarrow> (case field_at (merge_all datas) k f of None \<Rightarrow> Some PyNone | Some w \<Rightarrow> Some w)) \<and>
    (\<forall>k' \<in> set (map fst (merge_all (datas @ [dat]))). \<forall>f' \<in> set output_fields.
       field_at (merge_all (datas @ [dat])) k' f' \<noteq> None) \<and>
    (\<forall>later rb a b. distinct (map fst later) \<longrightarrow> map_of later k = Some rb \<longrightarrow>
       vals ''temp'' = Some a \<longrightarrow> rb ''temp'' = None \<longrightarrow> rb ''light'' = Some b \<longrightarrow>
       field_at (merge_all (datas @ [dat, later])) k ''temp'' = Some a \<and>
       field_at (merge_all (datas @ [dat, later])) k ''light'' = Some b)"
proof -
  have one: "field_at (merge_all (datas @ [dat])) k g =
      (if g \<in> set output_fields
       then (case vals g of
           Some v \<Rightarrow> Some v
         | None \<Rightarrow> (case field_at (merge_all datas) k g of None \<Rightarrow> Some PyNone | Some w \<Rightarrow> Some w))
       else field_at (merge_all datas) k g)" for g
    by (simp add: merge_all_snoc field_at_merge_file [OF assms(1)] assms(2))
  have all: "\<forall>k' \<in> set (map fst (merge_all (datas @ [dat]))). \<forall>f' \<in> set output_fields.
       field_at (merge_all (datas @ [dat])) k' f' \<noteq> None"
    using complete_field_at [OF all_complete_merge_all] by blast
  have two: "field_at (merge_all (datas @ [dat, later])) k ''temp'' = Some a \<and>
       field_at (merge_all (datas @ [dat, later])) k ''light'' = Some b"
    if "distinct (map fst later)" "map_of later k = Some rb" "vals ''temp'' = Some a"
       "rb ''temp'' = None" "rb ''light'' = Some b" for later rb a b
  proof -
    have "datas @ [dat, later] = (datas @ [dat]) @ [later]" by simp
    then have "field_at (merge_all (datas @ [dat, later])) k g =
       (if g \<in> set output_fields
        then (case rb g of
            Some v \<Rightarrow> Some v
          | None \<Rightarrow> (case field_at (merge_all (datas @ [dat])) k g of
                       None \<Rightarrow> Some PyNone | Some w \<Rightarrow> Some w))
        else field_at (merge_all (datas @ [dat])) k g)" for g
      by (simp only: merge_all_snoc field_at_merge_file [OF that(1)] that(2) option.case)
    then show ?thesis
      by (simp add: that one output_fields_def)
  qed
  show ?thesis
    using one [of f] assms(3) all two by (simp add: output_fields_def)
qed

theorem merge_fieldwise_witness:
  "distinct (map fst ex_temp_data) \<and>
   map_of ex_temp_data ''2022-01-01 01:00:00'' = Some (map_of [(''time'', PyStr ''2022-01-01 01:00:00''),
        (''localtime'', PyStr ''2021-12-31 21:00:00''), (''temp'', PyStr ''20.1'')]) \<and>
   ''wetdry'' \<in> set output_fields \<and>
   field_at (merge_all ([] @ [ex_temp_data])) ''2022-01-01 01:00:00'' ''wetdry'' = Some PyNone \<and>
   ''2022-01-01 01:00:00'' \<in> set (map fst (merge_all ([] @ [ex_temp_data]))) \<and>
   field_at (merge_all ([] @ [ex_temp_data])) ''2022-01-01 01:00:00'' ''light'' \<noteq> None \<and>
   distinct (map fst ex_light_data) \<and>
   field_at (merge_all ([] @ [ex_temp_data, ex_light_data])) ''2022-01-01 01:00:00'' ''temp'' = Some (PyStr ''20.1'') \<and>
   field_at (merge_all ([] @ [ex_temp_data, ex_light_data])) ''2022-01-01 01:00:00'' ''light'' = Some (PyStr ''350'')"
proof -
  let ?r = "map_of [(''time'', PyStr ''2022-01-01 01:00:00''),
        (''localtime'', PyStr ''2021-12-31 21:00:00''), (''temp'', PyStr ''20.1'')]"
  let ?rb = "map_of [(''time'', PyStr ''2022-01-01 01:00:00''),
        (''localtime'', PyStr ''2021-12-31 21:00:00''), (''light'', PyStr ''350'')]"
  have h1: "distinct (map fst ex_temp_data)" by (rule ex_temp_distinct)
  have h2: "map_of ex_temp_data ''2022-01-01 01:00:00'' = Some ?r"
    by (simp add: ex_temp_data_def)
  have h3: "''wetdry'' \<in> set output_fields" by (simp add: output_fields_def)
  have h4: "distinct (map fst ex_light_data)" by (simp add: ex_light_data_def)
  have h5: "map_of ex_light_data ''2022-01-01 01:00:00'' = Some ?rb"
    by (simp add: ex_light_data_def)
  have k: "''2022-01-01 01:00:00'' \<in> set (map fst (merge_all ([] @ [ex_temp_data])))"
    by (simp add: merge_all_def keys_merge_file_fold ex_temp_data_def)
  have l: "''light'' \<in> set output_fields" by (simp add: output_fields_def)
  note t = merge_fieldwise [OF h1 h2 h3, of "[]"]
  from t have "field_at (merge_all ([] @ [ex_temp_data])) ''2022-01-01 01:00:00'' ''wetdry'' = Some PyNone"
    by (simp add: merge_all_def)
  moreover from t k l have "field_at (merge_all ([] @ [ex_temp_data])) ''2022-01-01 01:00:00'' ''light'' \<noteq> None"
    by blast
  moreover from t h4 h5 have
    "field_at (merge_all ([] @ [ex_temp_data, ex_light_data])) ''2022-01-01 01:00:00'' ''temp'' = Some (PyStr ''20.1'') \<and>
     field_at (merge_all ([] @ [ex_temp_data, ex_light_data])) ''2022-01-01 01:00:00'' ''light'' = Some (PyStr ''350'')"
    by simp
  ultimately show ?thesis using h1 h2 h3 h4 k by blast
qed

text \<open>
C5. In the header (\<open>in_data\<close> not set), on a line that matches the drift pattern and
  whose number \<^verbatim>\<open>int()\<close> accepts: when \<open>end\<close> equals \<open>start\<close> the line raises
  ZeroDivisionError, and the run over any list of files ends with that error when the
  files before this one were read without one (line 222 catches IOError only); when
  \<open>end\<close> differs from \<open>start\<close> there is no division error and \<open>dps\<close> becomes the
  float \<open>drift / (end - start)\<close>, the quotient rounded to the nearest float. (Only a
  drift of more than 300 digits gives a quotient beyond the floats, and an
  OverflowError.)
\<close>

theorem drift_zero_window:
  assumes "\<not> in_data st" and "match_drift (strip raw) = Some g" and "py_int g = Some d"
  shows "(endt st = start st \<longrightarrow>
           process_line z st raw = Inl ZeroDivisionError \<and>
           (\<forall>pre later before after path outp.
              read_lines z init_state pre = Inr st \<longrightarrow>
              merge_files z [] before = Inr outp \<longrightarrow> \<not> contains ''driftadj'' path \<longrightarrow>
              run z (before @ (path, Some (pre @ raw # later)) # after) = Inl ZeroDivisionError)) \<and>
         (endt st \<noteq> start st \<longrightarrow>
           process_line z st raw \<noteq> Inl ZeroDivisionError \<and>
           process_line z st raw =
             (case to_double (of_int d / of_int (endt st - start st)) of
                Finite q \<Rightarrow> Inr (st\<lparr>drift := d, dps := PFloat (Finite q)\<rparr>)
              | _ \<Rightarrow> Inl OverflowError) \<and>
           (\<bar>d\<bar> < 2 ^ 1023 \<longrightarrow>
              process_line z st raw =
                Inr (st\<lparr>drift := d,
                       dps := PFloat (Finite (round_double (of_int d / of_int (endt st - start st))))\<rparr>)))"
proof -
  have p: "process_line z st raw =
      ebind (truediv d (endt st - start st)) (\<lambda>q. Inr (st\<lparr>drift := d, dps := PFloat (Finite q)\<rparr>))"
    by (simp add: process_line_header [OF assms(1)] header_line_drift [OF assms(2)] assms(3))
  show ?thesis
  proof (cases "endt st = start st")
    case True
    with p have e: "process_line z st raw = Inl ZeroDivisionError" by (simp add: truediv_def)
    have "run z (before @ (path, Some (pre @ raw # later)) # after) = Inl ZeroDivisionError"
      if "read_lines z init_state pre = Inr st" "merge_files z [] before = Inr outp"
         "\<not> contains ''driftadj'' path" for pre later before after path outp
      using that(1) e that(2,3) by (rule run_fatal)
    with e True show ?thesis by simp
  next
    case False
    then have n: "endt st - start st \<noteq> 0" by simp
    have c: "process_line z st raw =
             (case to_double (of_int d / of_int (endt st - start st)) of
                Finite q \<Rightarrow> Inr (st\<lparr>drift := d, dps := PFloat (Finite q)\<rparr>)
              | _ \<Rightarrow> Inl OverflowError)"
      unfolding p using n by (simp add: truediv_def split: pyfloat.splits)
    then have z: "process_line z st raw \<noteq> Inl ZeroDivisionError"
      by (simp split: pyfloat.splits)
    have f: "process_line z st raw =
                Inr (st\<lparr>drift := d,
                       dps := PFloat (Finite (round_double (of_int d / of_int (endt st - start st))))\<rparr>)"
      if "\<bar>d\<bar> < 2 ^ 1023"
      unfolding p by (simp add: truediv_finite [OF n that])
    from False c z f show ?thesis by blast
  qed
qed

theorem drift_zero_window_witness:
  "\<not> in_data ex_state_same \<and> match_drift (strip ex_drift) = Some ''3'' \<and> py_int ''3'' = Some 3 \<and>
   endt ex_state_same = start ex_state_same \<and>
   process_line utc ex_state_same ex_drift = Inl ZeroDivisionError \<and>
   read_lines utc init_state [ex_programmed, ex_end_same] = Inr ex_state_same \<and>
   merge_files utc [] [] = Inr [] \<and> \<not> contains ''driftadj'' ''a.deg'' \<and>
   run utc ([] @ (''a.deg'', Some ([ex_programmed, ex_end_same] @ ex_drift # [ex_names, ex_row1])) # [])
     = Inl ZeroDivisionError \<and>
   \<not> in_data ex_state_window \<and> endt ex_state_window \<noteq> start ex_state_window \<and>
   \<bar>3 :: int\<bar> < 2 ^ 1023 \<and>
   round_double (of_int 3 / of_int (endt ex_state_window - start ex_state_window)) = 3 / 4 \<and>
   process_line utc ex_state_window ex_drift = Inr ex_state_drift"
proof -
  note a = drift_zero_window [OF ex_in_data(1) ex_drift_match, of utc]
  note b = drift_zero_window [OF ex_in_data(2) ex_drift_match, of utc]
  have e: "endt ex_state_same = start ex_state_same" by (simp add: ex_state_same_def)
  have n: "endt ex_state_window \<noteq> start ex_state_window" by (simp add: ex_state_window_def)
  have m: "merge_files utc [] [] = Inr []" by simp
  have d: "\<bar>3 :: int\<bar> < 2 ^ 1023" by simp
  have r: "round_double (of_int 3 / of_int (endt ex_state_window - start ex_state_window)) = 3 / 4"
    by (simp add: ex_state_window_def ex_round)
  from a e have 1: "process_line utc ex_state_same ex_drift = Inl ZeroDivisionError" by simp
  from a e ex_same m not_driftadj
  have 2: "run utc ([] @ (''a.deg'', Some ([ex_programmed, ex_end_same] @ ex_drift # [ex_names, ex_row1])) # [])
     = Inl ZeroDivisionError"
    by blast
  from b n d have "process_line utc ex_state_window ex_drift =
      Inr (ex_state_window\<lparr>drift := 3,
         dps := PFloat (Finite (round_double (of_int 3 / of_int (endt ex_state_window - start ex_state_window))))\<rparr>)"
    by blast
  then have 3: "process_line utc ex_state_window ex_drift = Inr ex_state_drift"
    unfolding r by (simp add: ex_state_window_def ex_state_drift_def)
  show ?thesis
    using ex_in_data(1,2) ex_drift_match e n d r 1 2 3 ex_same m not_driftadj by simp
qed

text \<open>
C6. In the header, on a line that matches the pattern of the column names, with
  \<open>label\<close> the first name of the line: a label outside the six of \<^verbatim>\<open>fields\<close> raises
  KeyError, and the run ends with that error; a label of the table sets \<open>field\<close> to
  the name the table gives it, with \<^verbatim>\<open>duration\<close> turned into \<^verbatim>\<open>wetdry\<close>, and sets
  \<open>in_data\<close>.
\<close>

theorem unknown_label:
  assumes "\<not> in_data st" and "match_header (strip raw) = Some label"
  shows "(label \<notin> set [''T('C)'', ''light(lux)'', ''wets0-50'', ''wet min('C)'', ''wet/dry'', ''duration''] \<longrightarrow>
           process_line z st raw = Inl (KeyError label) \<and>
           (\<forall>pre later before after path outp.
              read_lines z init_state pre = Inr st \<longrightarrow>
              merge_files z [] before = Inr outp \<longrightarrow> \<not> contains ''driftadj'' path \<longrightarrow>
              run z (before @ (path, Some (pre @ raw # later)) # after) = Inl (KeyError label))) \<and>
         (\<forall>kind. (label, kind) \<in> set [(''T('C)'', ''temp''), (''light(lux)'', ''light''),
               (''wets0-50'', ''wets''), (''wet min('C)'', ''wet_temp_min''),
               (''wet/dry'', ''wetdry''), (''duration'', ''wetdry'')] \<longrightarrow>
           process_line z st raw = Inr (st\<lparr>field := Some kind, in_data := True\<rparr>))"
proof -
  have p: "process_line z st raw =
     (case map_of fields label of
        None \<Rightarrow> Inl (KeyError label)
      | Some f \<Rightarrow> Inr (st\<lparr>field := Some (if f = ''duration'' then ''wetdry'' else f), in_data := True\<rparr>))"
    by (simp add: process_line_header [OF assms(1)] header_line_names [OF assms(2)])
  have a: "process_line z st raw = Inl (KeyError label)"
    if "label \<notin> set [''T('C)'', ''light(lux)'', ''wets0-50'', ''wet min('C)'', ''wet/dry'', ''duration'']"
  proof -
    from that have "map_of fields label = None"
      by (simp add: fields_def)
    with p show ?thesis by simp
  qed
  have b: "process_line z st raw = Inr (st\<lparr>field := Some kind, in_data := True\<rparr>)"
    if "(label, kind) \<in> set [(''T('C)'', ''temp''), (''light(lux)'', ''light''),
               (''wets0-50'', ''wets''), (''wet min('C)'', ''wet_temp_min''),
               (''wet/dry'', ''wetdry''), (''duration'', ''wetdry'')]" for kind
  proof -
    from that have "\<exists>f. map_of fields label = Some f \<and> (if f = ''duration'' then ''wetdry'' else f) = kind"
      by (auto simp: fields_def)
    with p show ?thesis by auto
  qed
  have c: "run z (before @ (path, Some (pre @ raw # later)) # after) = Inl (KeyError label)"
    if "label \<notin> set [''T('C)'', ''light(lux)'', ''wets0-50'', ''wet min('C)'', ''wet/dry'', ''duration'']"
      "read_lines z init_state pre = Inr st" "merge_files z [] before = Inr outp"
      "\<not> contains ''driftadj'' path" for pre later before after path outp
    using that(2) a [OF that(1)] that(3,4) by (rule run_fatal)
  show ?thesis
  proof (intro conjI impI allI)
    assume "label \<notin> set [''T('C)'', ''light(lux)'', ''wets0-50'', ''wet min('C)'', ''wet/dry'', ''duration'']"
    then show "process_line z st raw = Inl (KeyError label)" by (rule a)
  next
    fix pre later before after path outp
    assume "label \<notin> set [''T('C)'', ''light(lux)'', ''wets0-50'', ''wet min('C)'', ''wet/dry'', ''duration'']"
      "read_lines z init_state pre = Inr st" "merge_files z [] before = Inr outp"
      "\<not> contains ''driftadj'' path"
    then show "run z (before @ (path, Some (pre @ raw # later)) # after) = Inl (KeyError label)"
      by (rule c)
  next
    fix kind
    assume "(label, kind) \<in> set [(''T('C)'', ''temp''), (''light(lux)'', ''light''),
               (''wets0-50'', ''wets''), (''wet min('C)'', ''wet_temp_min''),
               (''wet/dry'', ''wetdry''), (''duration'', ''wetdry'')]"
    then show "process_line z st raw = Inr (st\<lparr>field := Some kind, in_data := True\<rparr>)"
      by (rule b)
  qed
qed

theorem unknown_label_witness:
  "\<not> in_data ex_state_drift \<and> match_header (strip ex_names_unknown) = Some ''humidity'' \<and>
   ''humidity'' \<notin> set [''T('C)'', ''light(lux)'', ''wets0-50'', ''wet min('C)'', ''wet/dry'', ''duration''] \<and>
   process_line utc ex_state_drift ex_names_unknown = Inl (KeyError ''humidity'') \<and>
   read_lines utc init_state [ex_programmed, ex_end, ex_drift] = Inr ex_state_drift \<and>
   run utc ([] @ (''a.deg'', Some ([ex_programmed, ex_end, ex_drift] @ ex_names_unknown # [ex_row1])) # [])
     = Inl (KeyError ''humidity'') \<and>
   match_header (strip ex_names) = Some ''T('C)'' \<and>
   process_line utc ex_state_drift ex_names = Inr (ex_state_drift\<lparr>field := Some ''temp'', in_data := True\<rparr>)"
proof -
  note a = unknown_label [OF ex_in_data(3) ex_names_match(2), of utc]
  note b = unknown_label [OF ex_in_data(3) ex_names_match(1), of utc]
  note pre = ex_header_drift
  have m: "merge_files utc [] [] = Inr []" by simp
  from a ex_names_unknown_not_in_table
  have 1: "process_line utc ex_state_drift ex_names_unknown = Inl (KeyError ''humidity'')"
    by blast
  from a ex_names_unknown_not_in_table pre m not_driftadj
  have 2: "run utc ([] @ (''a.deg'', Some ([ex_programmed, ex_end, ex_drift] @ ex_names_unknown # [ex_row1])) # [])
     = Inl (KeyError ''humidity'')"
    by blast
  have "(''T('C)'', ''temp'') \<in> set [(''T('C)'', ''temp''), (''light(lux)'', ''light''),
               (''wets0-50'', ''wets''), (''wet min('C)'', ''wet_temp_min''),
               (''wet/dry'', ''wetdry''), (''duration'', ''wetdry'')]"
    by simp
  with b have 3: "process_line utc ex_state_drift ex_names = Inr (ex_state_drift\<lparr>field := Some ''temp'', in_data := True\<rparr>)"
    by blast
  show ?thesis
    using ex_in_data(3) ex_names_match ex_names_unknown_not_in_table 1 2 3 pre by simp
qed

text \<open>
C7. \<^verbatim>\<open>parse_time\<close> is total: it returns 0 on the empty string, on \<^verbatim>\<open>not-a-date\<close> and
  on every string that \<^verbatim>\<open>strptime\<close> rejects for the format \<^verbatim>\<open>%d/%m/%Y %H:%M:%S\<close> (line
  39 catches every exception). In the data section a line whose first column parses to
  a time of 0 or less leaves the state as it is (line 134).
\<close>

theorem parse_time_sentinel:
  "parse_time z [] = 0 \<and> parse_time z ''not-a-date'' = 0 \<and>
   (strptime s = None \<longrightarrow> parse_time z s = 0) \<and>
   (in_data st \<longrightarrow> index (split_on (CHR 0x09) (strip raw)) 0 = Inr row0 \<longrightarrow>
      parse_time z row0 \<le> 0 \<longrightarrow> process_line z st raw = Inr st)"
proof -
  have "strptime [] = None" by code_simp
  moreover have "strptime ''not-a-date'' = None" by code_simp
  moreover have "process_line z st raw = Inr st"
    if "in_data st" "index (split_on (CHR 0x09) (strip raw)) 0 = Inr row0" "parse_time z row0 \<le> 0"
    using that by (simp add: process_line_data data_line_skip [OF that(2)])
  ultimately show ?thesis by (simp add: parse_time_def)
qed

theorem parse_time_sentinel_witness:
  "strptime ''n/a'' = None \<and> parse_time utc ''n/a'' = 0 \<and> in_data ex_state_row1 \<and>
   index (split_on (CHR 0x09) (strip ex_row_bad)) 0 = Inr ''n/a'' \<and> parse_time utc ''n/a'' \<le> 0 \<and>
   process_line utc ex_state_row1 ex_row_bad = Inr ex_state_row1"
proof -
  note t = parse_time_sentinel [of utc "''n/a''" ex_state_row1 ex_row_bad "''n/a''"]
  from t ex_row_bad_split(2) have 1: "parse_time utc ''n/a'' = 0" by blast
  with t ex_in_data(5) ex_row_bad_split(1)
  have 2: "process_line utc ex_state_row1 ex_row_bad = Inr ex_state_row1" by simp
  show ?thesis using 1 2 ex_in_data(5) ex_row_bad_split by simp
qed

text \<open>
C8, as the code has it. The two functions go through the local zone of the platform,
  and \<^verbatim>\<open>fromtimestamp\<close> refuses some times. In a zone that keeps one offset from UTC (of
  at most a day), for every string that \<^verbatim>\<open>strptime\<close> accepts and that is not dated
  01/01/0001, \<^verbatim>\<open>time_to_string(parse_time(s))\<close> shows the year, month, day, hour, minute
  and second of the string, in the layout of \<^verbatim>\<open>%Y-%m-%d %H:%M:%S\<close>. On the first day of
  year 1 \<^verbatim>\<open>fromtimestamp\<close> raises (it also converts the time one day earlier, which
  is in year 0), so the claim for every valid string fails there: the counterexample,
  in UTC. In a zone whose clock changes the claim fails as well, on the local times
  that the clock skips.
\<close>

theorem parse_format_roundtrip:
  assumes "strptime s = Some dt" and "\<not> (year dt = 1 \<and> month dt = 1 \<and> day dt = 1)"
    and "\<bar>off\<bar> \<le> 86400"
  shows "mktime (fixed_zone off) dt = Some (parse_time (fixed_zone off) s) \<and>
         fromtimestamp (fixed_zone off) (PInt (parse_time (fixed_zone off) s)) = Inr dt \<and>
         time_to_string (fixed_zone off) (PInt (parse_time (fixed_zone off) s)) = Inr (strftime dt)"
proof -
  note m = parse_time_fixed [OF assms(1,3)]
  from fromtimestamp_fixed [OF strptime_valid [OF assms(1)] assms(2,3) m] m
  show ?thesis by (simp add: time_to_string_def fixed_zone_def)
qed

theorem parse_format_roundtrip_witness:
  "strptime ''01/01/2022 00:00:00'' =
     Some \<lparr>year = 2022, month = 1, day = 1, hour = 0, minute = 0, second = 0\<rparr> \<and>
   \<not> (year \<lparr>year = 2022, month = 1, day = 1, hour = 0, minute = 0, second = 0\<rparr> = 1 \<and>
      month \<lparr>year = 2022, month = 1, day = 1, hour = 0, minute = 0, second = 0\<rparr> = 1 \<and>
      day \<lparr>year = 2022, month = 1, day = 1, hour = 0, minute = 0, second = 0\<rparr> = 1) \<and>
   \<bar>0 :: int\<bar> \<le> 86400 \<and>
   parse_time (fixed_zone 0) ''01/01/2022 00:00:00'' = 1640995200 \<and>
   time_to_string (fixed_zone 0) (PInt (parse_time (fixed_zone 0) ''01/01/2022 00:00:00''))
     = Inr ''2022-01-01 00:00:00''"
proof -
  let ?dt = "\<lparr>year = 2022, month = 1, day = 1, hour = 0, minute = 0, second = 0\<rparr>"
  have h1: "strptime ''01/01/2022 00:00:00'' = Some ?dt" by (rule ex_strptime)
  have h2: "\<not> (year ?dt = 1 \<and> month ?dt = 1 \<and> day ?dt = 1)" by simp
  have h3: "\<bar>0 :: int\<bar> \<le> 86400" by simp
  have f: "strftime ?dt = ''2022-01-01 00:00:00''" by code_simp
  have p: "parse_time (fixed_zone 0) ''01/01/2022 00:00:00'' = 1640995200"
    using ex_parse(1) by (simp add: utc_def)
  from parse_format_roundtrip [OF h1 h2 h3] f
  have "time_to_string (fixed_zone 0) (PInt (parse_time (fixed_zone 0) ''01/01/2022 00:00:00''))
      = Inr ''2022-01-01 00:00:00''"
    by simp
  with h1 h2 p show ?thesis by simp
qed

theorem first_day_counterexample:
  "strptime ''01/01/0001 00:00:00'' =
     Some \<lparr>year = 1, month = 1, day = 1, hour = 0, minute = 0, second = 0\<rparr> \<and>
   parse_time utc ''01/01/0001 00:00:00'' = - 62135596800 \<and>
   time_to_string utc (PInt (parse_time utc ''01/01/0001 00:00:00'')) = Inl ValueError"
proof -
  have s: "strptime ''01/01/0001 00:00:00'' =
     Some \<lparr>year = 1, month = 1, day = 1, hour = 0, minute = 0, second = 0\<rparr>"
    by code_simp
  have m: "mktime utc \<lparr>year = 1, month = 1, day = 1, hour = 0, minute = 0, second = 0\<rparr>
      = Some (- 62135596800)"
    by code_simp
  have p: "parse_time utc ''01/01/0001 00:00:00'' = - 62135596800"
    by (rule parse_time_eval [OF s m]) simp
  have "time_to_string utc (PInt (- 62135596800)) = Inl ValueError"
    by code_simp
  with s p show ?thesis by simp
qed



text \<open>
C10. For every merged table the interpolation (lines 332 to 388) returns a table with
  the same set of dates, and every field other than wetdry and the four wet-temperature
  fields (so time, localtime, temp, light, wets and duration) holds at every date the
  value it had before.
\<close>

theorem interpolation_frame:
  "\<exists>final. interpolate (merge_all datas) = Inr final \<and>
     set (map fst final) = set (map fst (merge_all datas)) \<and>
     (\<forall>k f. f \<notin> set interpolated_fields \<longrightarrow>
        field_at final k f = field_at (merge_all datas) k f)"
proof -
  from interpolate_fields [OF distinct_merge_all all_complete_merge_all, of datas]
  obtain final where
    f: "interpolate (merge_all datas) = Inr final"
       "map fst final = sort (map fst (merge_all datas))"
       "\<forall>k f. f \<notin> set interpolated_fields \<longrightarrow> field_at final k f = field_at (merge_all datas) k f"
    by blast
  from f(2) have "set (map fst final) = set (map fst (merge_all datas))"
    by (metis set_sort)
  with f(1) f(3) show ?thesis by blast
qed

theorem interpolation_frame_witness:
  "''duration'' \<notin> set interpolated_fields \<and> ''temp'' \<notin> set interpolated_fields \<and>
   (\<exists>final. interpolate (merge_all [ex_temp_data, ex_wetdry_data]) = Inr final \<and>
      set (map fst final) = {''2022-01-01 00:00:00'', ''2022-01-01 01:00:00'',
        ''2022-01-01 02:00:00'', ''2022-01-01 03:00:00'', ''2022-01-01 04:00:00''} \<and>
      field_at final ''2022-01-01 03:00:00'' ''duration'' = Some PyNone \<and>
      field_at final ''2022-01-01 03:00:00'' ''temp'' = Some (PyStr ''20.3''))"
proof -
  have n: "''duration'' \<notin> set interpolated_fields" "''temp'' \<notin> set interpolated_fields"
    by (simp_all add: interpolated_fields_def)
  from interpolation_frame [of "[ex_temp_data, ex_wetdry_data]"] obtain final where
    f: "interpolate (merge_all [ex_temp_data, ex_wetdry_data]) = Inr final"
       "set (map fst final) = set (map fst (merge_all [ex_temp_data, ex_wetdry_data]))"
       "\<forall>k f. f \<notin> set interpolated_fields \<longrightarrow>
          field_at final k f = field_at (merge_all [ex_temp_data, ex_wetdry_data]) k f"
    by blast
  have e: "merge_all [ex_temp_data, ex_wetdry_data] = ex_merged"
    by (simp add: ex_merged_def)
  from f(2) have "set (map fst final) = {''2022-01-01 00:00:00'', ''2022-01-01 01:00:00'',
        ''2022-01-01 02:00:00'', ''2022-01-01 03:00:00'', ''2022-01-01 04:00:00''}"
    unfolding e by (simp add: ex_keys)
  moreover from f(3) [unfolded e] n have
    "field_at final ''2022-01-01 03:00:00'' ''duration'' = Some PyNone"
    "field_at final ''2022-01-01 03:00:00'' ''temp'' = Some (PyStr ''20.3'')"
    by (simp_all add: ex_eval)
  ultimately show ?thesis using n f(1) by blast
qed

end
